theory Spec2Isabelle
  imports Complex_Main "HOL-Library.Char_ord" "HOL-Library.List_Lexorder"
    "HOL-Library.Product_Lexorder" "HOL-Library.Multiset"
begin

unbundle bit_operations_syntax

section \<open>The program\<close>

text \<open>
  The definitions of this section follow \<^verbatim>\<open>scripts/find_near_duplicates.py\<close>.
  Python integers are unbounded, so fingerprints are values of type \<open>int\<close>; list indices
  are natural numbers (the program only indexes with values of \<open>range(n)\<close> and with
  parent links); a path is the string that \<open>str(p)\<close> gives. An exception is a value:
  \<open>IndexError\<close> for a read or write outside a list, and the message string for a
  failure of the fingerprint backend, which the program catches. The only loop without an
  obvious bound is the one of \<open>DSU.find\<close>; it is defined as a partial function, so that a
  run that never returns is the value \<open>None\<close>.
\<close>

datatype error = IndexError

definition bind_res ::
    "(error + 'a) option \<Rightarrow> ('a \<Rightarrow> (error + 'b) option) \<Rightarrow> (error + 'b) option" where
  "bind_res m f =
     (case m of None \<Rightarrow> None | Some (Inl e) \<Rightarrow> Some (Inl e) | Some (Inr v) \<Rightarrow> f v)"

definition get :: "'a list \<Rightarrow> nat \<Rightarrow> (error + 'a) option" where
  "get xs i = (if i < length xs then Some (Inr (xs ! i)) else Some (Inl IndexError))"

fun for_each :: "'a list \<Rightarrow> ('a \<Rightarrow> 's \<Rightarrow> (error + 's) option) \<Rightarrow> 's \<Rightarrow> (error + 's) option" where
  "for_each [] body s = Some (Inr s)"
| "for_each (x # xs) body s = bind_res (body x s) (for_each xs body)"

subsection \<open>Average hash\<close>

text \<open>
  The packing loop shared by \<open>ahash_pillow\<close> and \<open>ahash_imagemagick\<close>:
  \<^verbatim>\<open>avg = sum(pixels) / 64.0; bits = 0; for v in pixels: bits = (bits << 1) | (1 if v > avg else 0)\<close>.
  The mean is a float in the source. Dividing by 64 is exact in binary floating point
  for every sum below \<open>2 ^ 53\<close> (pixels are bytes, so the sum is at most 16320), and Python
  compares an integer with a float by value, so the mean is modelled by the exact quotient.
\<close>

definition ahash_bits :: "int list \<Rightarrow> int" where
  "ahash_bits pixels =
     (let avg = real_of_int (sum_list pixels) / 64
      in foldl (\<lambda>bits v. push_bit 1 bits OR (if real_of_int v > avg then 1 else 0)) 0 pixels)"

text \<open>
  \<open>ahash_pillow\<close>: opening the image, converting it to grayscale, resizing it to 8 by 8 and
  reading its pixels is the work of the imaging library, here the parameter \<open>getdata\<close>,
  which gives the pixel list or the message of the exception raised.
\<close>

definition ahash_pillow :: "(string \<Rightarrow> string + int list) \<Rightarrow> string \<Rightarrow> string + int" where
  "ahash_pillow getdata path =
     (case getdata path of Inl e \<Rightarrow> Inl e | Inr pixels \<Rightarrow> Inr (ahash_bits pixels))"

text \<open>
  \<open>ahash_imagemagick\<close>: \<open>check_output\<close> runs a command and gives its output bytes or
  the message of the exception raised. The two command variants are tried in order; an
  output shorter than 64 bytes counts as a failure of that variant.
\<close>

definition gray_args :: "string list" where
  "gray_args = [''-colorspace'', ''RGB'', ''-resize'', ''8x8!'', ''-colorspace'', ''Gray'',
     ''-depth'', ''8'', ''gray:-'']"

definition cmd_variants :: "string \<Rightarrow> string list list" where
  "cmd_variants path = [[''magick'', ''convert'', path] @ gray_args, [''convert'', path] @ gray_args]"

fun try_cmds ::
    "(string list \<Rightarrow> string + int list) \<Rightarrow> string list list \<Rightarrow> string option \<Rightarrow> string + int" where
  "try_cmds check_output [] last_err =
     Inl (''ImageMagick convert not available or failed: ''
            @ (case last_err of None \<Rightarrow> ''None'' | Some e \<Rightarrow> e))"
| "try_cmds check_output (cmd # cmds) last_err =
     (case check_output cmd of
        Inl e \<Rightarrow> try_cmds check_output cmds (Some e)
      | Inr out \<Rightarrow>
          if length out < 64 then try_cmds check_output cmds (Some ''unexpected gray output size'')
          else Inr (ahash_bits (take 64 out)))"

definition ahash_imagemagick :: "(string list \<Rightarrow> string + int list) \<Rightarrow> string \<Rightarrow> string + int" where
  "ahash_imagemagick check_output path = try_cmds check_output (cmd_variants path) None"

definition ahash ::
    "bool \<Rightarrow> (string \<Rightarrow> string + int list) \<Rightarrow> (string list \<Rightarrow> string + int list) \<Rightarrow> string
       \<Rightarrow> string + int" where
  "ahash have_pillow getdata check_output path =
     (if have_pillow then ahash_pillow getdata path else ahash_imagemagick check_output path)"

subsection \<open>Hamming distance\<close>

text \<open>
  \<open>int.bit_count()\<close> is the number of ones in the binary representation of the absolute
  value of the integer.
\<close>

function bit_count_nat :: "nat \<Rightarrow> nat" where
  "bit_count_nat n = (if n = 0 then 0 else n mod 2 + bit_count_nat (n div 2))"
  by pat_completeness auto
termination
  by (relation "measure id") auto

declare bit_count_nat.simps [simp del]

definition bit_count :: "int \<Rightarrow> int" where
  "bit_count x = int (bit_count_nat (nat \<bar>x\<bar>))"

definition hamming :: "int \<Rightarrow> int \<Rightarrow> int" where
  "hamming a b = bit_count (a XOR b)"

subsection \<open>Disjoint sets\<close>

text \<open>
  The class \<open>DSU\<close> with its two lists \<open>self.p\<close> (parents) and \<open>self.r\<close> (ranks).
  \<open>find\<close> halves the path while it walks: \<^verbatim>\<open>self.p[x] = self.p[self.p[x]]; x = self.p[x]\<close>.
  Both methods change the object, so the model returns the new state.
\<close>

record dsu =
  self_p :: "nat list"
  self_r :: "nat list"

definition DSU :: "nat \<Rightarrow> dsu" where
  "DSU n = \<lparr>self_p = [0 ..< n], self_r = replicate n 0\<rparr>"

partial_function (option) dsu_find :: "dsu \<Rightarrow> nat \<Rightarrow> (error + dsu \<times> nat) option" where
  "dsu_find d x =
     (if length (self_p d) \<le> x then Some (Inl IndexError)
      else if self_p d ! x = x then Some (Inr (d, x))
      else if length (self_p d) \<le> self_p d ! x then Some (Inl IndexError)
      else let d' = d\<lparr>self_p := (self_p d)[x := self_p d ! (self_p d ! x)]\<rparr>
           in dsu_find d' (self_p d' ! x))"

declare dsu_find.simps [code]

definition dsu_union :: "dsu \<Rightarrow> nat \<Rightarrow> nat \<Rightarrow> (error + dsu) option" where
  "dsu_union d a b =
     bind_res (dsu_find d a) (\<lambda>(d1, ra).
     bind_res (dsu_find d1 b) (\<lambda>(d2, rb).
       if ra = rb then Some (Inr d2)
       else if length (self_r d2) \<le> ra \<or> length (self_r d2) \<le> rb then Some (Inl IndexError)
       else let (ra', rb') = (if self_r d2 ! ra < self_r d2 ! rb then (rb, ra) else (ra, rb))
            in if length (self_p d2) \<le> rb' then Some (Inl IndexError)
               else let d3 = d2\<lparr>self_p := (self_p d2)[rb' := ra']\<rparr>
                    in if self_r d3 ! ra' = self_r d3 ! rb'
                       then Some (Inr (d3\<lparr>self_r := (self_r d3)[ra' := self_r d3 ! ra' + 1]\<rparr>))
                       else Some (Inr d3)))"

text \<open>A sequence of \<open>union\<close> calls on one object.\<close>

fun unions :: "dsu \<Rightarrow> (nat \<times> nat) list \<Rightarrow> (error + dsu) option" where
  "unions d [] = Some (Inr d)"
| "unions d ((a, b) # ps) = bind_res (dsu_union d a b) (\<lambda>d'. unions d' ps)"

subsection \<open>Configuration\<close>







subsection \<open>Hashing, comparing, grouping\<close>

text \<open>
  The hashing loop of \<open>main\<close>: one entry of \<open>hashes\<close> per file, \<open>-1\<close> where the backend
  raised, and the file with the message appended to \<open>failures\<close>. The third list of the
  state, \<open>hashed\<close>, holds the paths on which the backend has been called so far, in order;
  the source keeps no such list, it is there to state which files a run hashes.
\<close>

type_synonym hash_state = "int list \<times> (string \<times> string) list \<times> string list"

fun hash_loop :: "(string \<Rightarrow> string + int) \<Rightarrow> string list \<Rightarrow> hash_state \<Rightarrow> hash_state" where
  "hash_loop ah [] st = st"
| "hash_loop ah (p # ps) (hashes, failures, hashed) =
     (case ah p of
        Inr h \<Rightarrow> hash_loop ah ps (hashes @ [h], failures, hashed @ [p])
      | Inl e \<Rightarrow> hash_loop ah ps (hashes @ [- 1], failures @ [(p, e)], hashed @ [p]))"

text \<open>
  The comparison loops. The state is the \<open>DSU\<close> object together with the list of the
  index pairs on which \<open>hamming\<close> has been evaluated so far, in order; the source keeps no
  such list (its counter \<open>pairs\<close> is never read), it is there to state which comparisons
  a run makes.
\<close>

type_synonym cmp_state = "dsu \<times> (nat \<times> nat) list"

definition compare_row ::
    "int \<Rightarrow> int list \<Rightarrow> nat \<Rightarrow> nat \<Rightarrow> int \<Rightarrow> cmp_state \<Rightarrow> (error + cmp_state) option" where
  "compare_row thr hashes n i hi =
     for_each [i + 1 ..< n] (\<lambda>j (dsu, compared).
       bind_res (get hashes j) (\<lambda>hj.
         if hj < 0 then Some (Inr (dsu, compared))
         else if hamming hi hj \<le> thr
           then bind_res (dsu_union dsu i j) (\<lambda>dsu'. Some (Inr (dsu', compared @ [(i, j)])))
           else Some (Inr (dsu, compared @ [(i, j)]))))"

definition compare_hashes :: "int \<Rightarrow> int list \<Rightarrow> nat \<Rightarrow> (error + cmp_state) option" where
  "compare_hashes thr hashes n =
     for_each [0 ..< n] (\<lambda>i (dsu, compared).
       bind_res (get hashes i) (\<lambda>hi.
         if hi < 0 then Some (Inr (dsu, compared))
         else compare_row thr hashes n i hi (dsu, compared))) (DSU n, [])"

text \<open>
  \<open>comps\<close> is a dictionary from root index to member list. A Python dictionary keeps its
  keys in insertion order and \<open>comps.values()\<close> is read in that order, so it is an
  association list; \<^verbatim>\<open>comps.setdefault(root_idx, []).append(idx)\<close> is:
\<close>

fun setdefault_append :: "(nat \<times> nat list) list \<Rightarrow> nat \<Rightarrow> nat \<Rightarrow> (nat \<times> nat list) list" where
  "setdefault_append [] k v = [(k, [v])]"
| "setdefault_append ((k', vs) # kvs) k v =
     (if k' = k then (k', vs @ [v]) # kvs else (k', vs) # setdefault_append kvs k v)"

definition collect_components ::
    "int list \<Rightarrow> nat \<Rightarrow> dsu \<Rightarrow> (error + dsu \<times> (nat \<times> nat list) list) option" where
  "collect_components hashes n dsu0 =
     for_each [0 ..< n] (\<lambda>idx (dsu, comps).
       bind_res (get hashes idx) (\<lambda>h.
         if h < 0 then Some (Inr (dsu, comps))
         else bind_res (dsu_find dsu idx) (\<lambda>(dsu', root_idx).
           Some (Inr (dsu', setdefault_append comps root_idx idx))))) (dsu0, [])"

text \<open>
  \<^verbatim>\<open>groups = [sorted(idxs) for idxs in comps.values() if len(idxs) > 1]\<close>, then sorted
  (stably) by size and member paths. The members of a component are indices below
  \<open>len(files)\<close>, so \<open>files[i]\<close> is in range.
\<close>

definition make_groups :: "string list \<Rightarrow> (nat \<times> nat list) list \<Rightarrow> nat list list" where
  "make_groups files comps =
     sort_key (\<lambda>g. (length g, map (\<lambda>i. files ! i) g))
       (map sort (filter (\<lambda>idxs. length idxs > 1) (map snd comps)))"

definition find_groups ::
    "int \<Rightarrow> string list \<Rightarrow> int list \<Rightarrow> (error + nat list list \<times> (nat \<times> nat) list) option" where
  "find_groups thr files hashes =
     (let n = length files in
      bind_res (compare_hashes thr hashes n) (\<lambda>(dsu, compared).
      bind_res (collect_components hashes n dsu) (\<lambda>(dsu', comps).
        Some (Inr (make_groups files comps, compared)))))"

text \<open>
  The body of the manifest loop: the member paths sorted, the first kept, the others
  proposed for deletion.
\<close>

definition resolve_group :: "string list \<Rightarrow> nat list \<Rightarrow> error + string \<times> string list" where
  "resolve_group files grp =
     (let paths = map (\<lambda>i. files ! i) grp;
          paths_sorted = sort paths
      in case paths_sorted of [] \<Rightarrow> Inl IndexError | keep # dupes \<Rightarrow> Inr (keep, dupes))"


subsection \<open>The run\<close>




section \<open>Specification notions\<close>

text \<open>
  A parent list is a forest when every entry is an index of the list and the links that
  are not loops descend along some height function: following parents never cycles.
\<close>

definition links :: "(nat \<Rightarrow> nat) \<Rightarrow> nat list \<Rightarrow> bool" where
  "links h ps \<longleftrightarrow> (\<forall>i < length ps. ps ! i < length ps \<and> (ps ! i \<noteq> i \<longrightarrow> h (ps ! i) < h i))"

definition forest :: "nat list \<Rightarrow> bool" where
  "forest ps \<longleftrightarrow> (\<exists>h. links h ps)"

text \<open>\<open>root_of ps x rt\<close>: following the parent links from \<open>x\<close> ends in the root \<open>rt\<close>.\<close>

inductive root_of :: "nat list \<Rightarrow> nat \<Rightarrow> nat \<Rightarrow> bool" for ps :: "nat list" where
  root_self: "x < length ps \<Longrightarrow> ps ! x = x \<Longrightarrow> root_of ps x x"
| root_step: "x < length ps \<Longrightarrow> ps ! x \<noteq> x \<Longrightarrow> root_of ps (ps ! x) rt \<Longrightarrow> root_of ps x rt"

definition same_set :: "nat list \<Rightarrow> nat \<Rightarrow> nat \<Rightarrow> bool" where
  "same_set ps x y \<longleftrightarrow> (\<exists>rt. root_of ps x rt \<and> root_of ps y rt)"

text \<open>
  The invariant that \<open>DSU(n)\<close> establishes and \<open>find\<close> and \<open>union\<close> keep: the two lists
  have the same length, parents are indices, and the rank grows strictly along every
  link that is not a loop.
\<close>

definition dsu_inv :: "dsu \<Rightarrow> bool" where
  "dsu_inv d \<longleftrightarrow> length (self_r d) = length (self_p d) \<and>
     (\<forall>i < length (self_p d). self_p d ! i < length (self_p d) \<and>
        (self_p d ! i \<noteq> i \<longrightarrow> self_r d ! i < self_r d ! (self_p d ! i)))"

definition merged :: "nat list \<Rightarrow> nat \<Rightarrow> nat \<Rightarrow> nat \<Rightarrow> nat \<Rightarrow> bool" where
  "merged ps a b x y \<longleftrightarrow>
     same_set ps x y \<or> (same_set ps x a \<and> same_set ps b y) \<or> (same_set ps x b \<and> same_set ps a y)"

text \<open>
  The similarity graph on the items with a fingerprint, the relation it generates, and
  the class of an item.
\<close>

definition valid :: "int list \<Rightarrow> nat \<Rightarrow> bool" where
  "valid hashes i \<longleftrightarrow> i < length hashes \<and> 0 \<le> hashes ! i"

definition similar :: "int \<Rightarrow> int list \<Rightarrow> (nat \<times> nat) set" where
  "similar thr hashes =
     {(i, j). i < j \<and> valid hashes i \<and> valid hashes j \<and> hamming (hashes ! i) (hashes ! j) \<le> thr}"

definition linked :: "int \<Rightarrow> int list \<Rightarrow> nat \<Rightarrow> nat \<Rightarrow> bool" where
  "linked thr hashes i j \<longleftrightarrow> (i, j) \<in> (similar thr hashes \<union> (similar thr hashes)\<inverse>)\<^sup>*"

definition component :: "int \<Rightarrow> int list \<Rightarrow> nat \<Rightarrow> nat list" where
  "component thr hashes i =
     filter (\<lambda>j. valid hashes j \<and> linked thr hashes i j) [0 ..< length hashes]"

definition valid_items :: "int list \<Rightarrow> nat list" where
  "valid_items hashes = filter (\<lambda>i. 0 \<le> hashes ! i) [0 ..< length hashes]"

text \<open>Auxiliary lists for the two loops.\<close>

definition row_pairs :: "int list \<Rightarrow> nat \<Rightarrow> nat list \<Rightarrow> (nat \<times> nat) list" where
  "row_pairs hashes i js = map (Pair i) (filter (\<lambda>j. 0 \<le> hashes ! j) js)"

definition close_pairs :: "int \<Rightarrow> int list \<Rightarrow> (nat \<times> nat) list \<Rightarrow> (nat \<times> nat) list" where
  "close_pairs thr hashes prs = filter (\<lambda>(i, j). hamming (hashes ! i) (hashes ! j) \<le> thr) prs"

definition all_pairs :: "int list \<Rightarrow> nat \<Rightarrow> nat list \<Rightarrow> (nat \<times> nat) list" where
  "all_pairs hashes n rows =
     concat (map (\<lambda>i. if 0 \<le> hashes ! i then row_pairs hashes i [i + 1 ..< n] else []) rows)"

definition bucket :: "(nat \<Rightarrow> nat) \<Rightarrow> nat list \<Rightarrow> nat \<Rightarrow> nat list" where
  "bucket rep idxs k = filter (\<lambda>j. rep j = k) idxs"

definition comps_of :: "(nat \<Rightarrow> nat) \<Rightarrow> nat list \<Rightarrow> (nat \<times> nat list) list \<Rightarrow> bool" where
  "comps_of rep idxs comps \<longleftrightarrow> distinct (map fst comps) \<and>
     (\<forall>k. map_of comps k = (if k \<in> rep ` set idxs then Some (bucket rep idxs k) else None))"

text \<open>The body of the packing loop, and the two lists the hashing loop builds.\<close>

definition pack_step :: "real \<Rightarrow> int \<Rightarrow> int \<Rightarrow> int" where
  "pack_step avg bits v = push_bit 1 bits OR (if real_of_int v > avg then 1 else 0)"

definition hash_entry :: "(string \<Rightarrow> string + int) \<Rightarrow> string \<Rightarrow> int" where
  "hash_entry ah p = (case ah p of Inr h \<Rightarrow> h | Inl e \<Rightarrow> - 1)"

definition failure_entries :: "(string \<Rightarrow> string + int) \<Rightarrow> string list \<Rightarrow> (string \<times> string) list" where
  "failure_entries ah ps = concat (map (\<lambda>p. case ah p of Inr h \<Rightarrow> [] | Inl e \<Rightarrow> [(p, e)]) ps)"

section \<open>Disjoint sets: forests, roots and the invariant\<close>

lemma root_of_fun: "root_of ps x a \<Longrightarrow> root_of ps x b \<Longrightarrow> a = b"
proof (induction arbitrary: b rule: root_of.induct)
  case (root_self x)
  from root_self.prems root_self.hyps show ?case by (cases rule: root_of.cases) auto
next
  case (root_step x rt)
  from root_step.prems root_step.hyps(2) have "root_of ps (ps ! x) b"
    by (cases rule: root_of.cases) auto
  then show ?case by (rule root_step.IH)
qed

lemma root_of_is_root: "root_of ps x rt \<Longrightarrow> rt < length ps \<and> ps ! rt = rt"
  by (induction rule: root_of.induct) auto

lemma root_of_dom: "root_of ps x rt \<Longrightarrow> x < length ps"
  by (cases rule: root_of.cases) auto

lemma root_of_total: "links h ps \<Longrightarrow> x < length ps \<Longrightarrow> \<exists>rt. root_of ps x rt"
proof (induction "h x" arbitrary: x rule: less_induct)
  case less
  show ?case
  proof (cases "ps ! x = x")
    case True
    with less.prems show ?thesis by (blast intro: root_self)
  next
    case False
    with less.prems have "h (ps ! x) < h x" "ps ! x < length ps" by (auto simp: links_def)
    then obtain rt where "root_of ps (ps ! x) rt" using less.hyps less.prems(1) by blast
    with False less.prems(2) show ?thesis by (blast intro: root_step)
  qed
qed

lemma links_halve:
  assumes "links h ps" "x < length ps"
  shows "links h (ps[x := ps ! (ps ! x)])"
proof -
  let ?y = "ps ! x"
  have y: "?y < length ps" using assms by (simp add: links_def)
  have z: "ps ! ?y < length ps" using assms y by (simp add: links_def)
  have hx: "ps ! ?y \<noteq> x \<Longrightarrow> h (ps ! ?y) < h x"
  proof -
    assume ne: "ps ! ?y \<noteq> x"
    then have yx: "?y \<noteq> x" by auto
    then have 1: "h ?y < h x" using assms by (simp add: links_def)
    show ?thesis
    proof (cases "ps ! ?y = ?y")
      case True then show ?thesis using 1 by simp
    next
      case False
      then have "h (ps ! ?y) < h ?y" using assms(1) y by (simp add: links_def)
      then show ?thesis using 1 by simp
    qed
  qed
  show ?thesis
    unfolding links_def
  proof (intro allI impI)
    fix i assume "i < length (ps[x := ps ! ?y])"
    then have i: "i < length ps" by simp
    show "ps[x := ps ! ?y] ! i < length (ps[x := ps ! ?y]) \<and>
      (ps[x := ps ! ?y] ! i \<noteq> i \<longrightarrow> h (ps[x := ps ! ?y] ! i) < h i)"
    proof (cases "i = x")
      case True
      then show ?thesis using z hx assms(2) by simp
    next
      case False
      then show ?thesis using assms(1) i by (simp add: links_def)
    qed
  qed
qed

lemma links_no_two_cycle:
  assumes "links h ps" "x < length ps" "ps ! x \<noteq> x"
  shows "ps ! (ps ! x) \<noteq> x"
proof
  assume eq: "ps ! (ps ! x) = x"
  have 1: "h (ps ! x) < h x" "ps ! x < length ps" using assms by (auto simp: links_def)
  then have "h (ps ! (ps ! x)) < h (ps ! x)" using assms(1) eq assms(3) by (auto simp: links_def)
  with eq 1 show False by simp
qed

lemma root_of_halve:
  assumes "links h ps" "x < length ps" "root_of ps y rt"
  shows "root_of (ps[x := ps ! (ps ! x)]) y rt"
  using assms(3)
proof (induction rule: root_of.induct)
  case (root_self y)
  have "ps[x := ps ! (ps ! x)] ! y = y"
    using root_self by (cases "y = x") auto
  then show ?case using root_self by (simp add: root_of.root_self)
next
  case (root_step y rt)
  let ?ps' = "ps[x := ps ! (ps ! x)]"
  show ?case
  proof (cases "y = x")
    case False
    then have "?ps' ! y = ps ! y" by simp
    then show ?thesis using root_step by (simp add: root_of.root_step)
  next
    case True
    let ?z = "ps ! x"
    have zx: "?z \<noteq> x" using root_step True by simp
    have nx: "ps ! ?z \<noteq> x" using links_no_two_cycle [OF assms(1,2)] zx by simp
    have px: "?ps' ! x = ps ! ?z" using assms(2) by simp
    have pz: "?ps' ! ?z = ps ! ?z" using zx by simp
    from root_step.IH True have "root_of ?ps' ?z rt" by simp
    then have "root_of ?ps' (ps ! ?z) rt"
    proof (cases rule: root_of.cases)
      case root_self
      then show ?thesis using pz by (simp add: root_of.root_self)
    next
      case root_step
      then show ?thesis using pz by simp
    qed
    then show ?thesis using True px nx assms(2) by (simp add: root_of.root_step)
  qed
qed

lemma dsu_find_correct:
  assumes "links h (self_p d)" "x < length (self_p d)"
  shows "\<exists>ps' rt. dsu_find d x = Some (Inr (d\<lparr>self_p := ps'\<rparr>, rt)) \<and> links h ps' \<and>
           length ps' = length (self_p d) \<and> root_of (self_p d) x rt \<and>
           (\<forall>y r. root_of (self_p d) y r \<longrightarrow> root_of ps' y r)"
  using assms
proof (induction "h x" arbitrary: d x rule: less_induct)
  case less
  let ?ps = "self_p d"
  show ?case
  proof (cases "?ps ! x = x")
    case True
    have "dsu_find d x = Some (Inr (d\<lparr>self_p := ?ps\<rparr>, x))"
      using True less.prems(2) by (subst dsu_find.simps) simp
    moreover have "root_of ?ps x x" using True less.prems(2) by (rule_tac root_self)
    ultimately show ?thesis using less.prems(1) by blast
  next
    case False
    let ?y = "?ps ! x"
    let ?ps' = "?ps[x := ?ps ! ?y]"
    let ?d' = "d\<lparr>self_p := ?ps'\<rparr>"
    let ?x' = "?ps ! ?y"
    have y: "?y < length ?ps" "h ?y < h x" using less.prems False by (auto simp: links_def)
    have x': "?x' < length ?ps" "h ?x' \<le> h ?y" using less.prems(1) y(1)
      by (cases "?ps ! ?y = ?y"; force simp: links_def)+
    have l': "links h (self_p ?d')" using links_halve [OF less.prems] by simp
    have unf: "dsu_find d x = dsu_find ?d' ?x'"
      using False less.prems(2) y(1) by (subst dsu_find.simps) (simp add: Let_def)
    have "h ?x' < h x" using x' y by simp
    moreover have "?x' < length (self_p ?d')" using x' by simp
    ultimately obtain ps2 rt where r:
      "dsu_find ?d' ?x' = Some (Inr (?d'\<lparr>self_p := ps2\<rparr>, rt))" "links h ps2"
      "length ps2 = length (self_p ?d')" "root_of (self_p ?d') ?x' rt"
      "\<forall>y r. root_of (self_p ?d') y r \<longrightarrow> root_of ps2 y r"
      using less.hyps [of ?x' ?d'] l' by blast
    obtain rt0 where rt0: "root_of ?ps x rt0" using root_of_total [OF less.prems] by blast
    have keep: "\<And>y r. root_of ?ps y r \<Longrightarrow> root_of ?ps' y r"
      using root_of_halve [OF less.prems] by blast
    have "?ps' ! x = ?x'" using less.prems(2) by simp
    moreover have "?x' \<noteq> x" using links_no_two_cycle [OF less.prems False] .
    ultimately have "root_of ?ps' x rt" using r(4) less.prems(2)
      by (auto intro: root_step)
    then have "rt0 = rt" using keep [OF rt0] by (rule_tac root_of_fun)
    then have "root_of ?ps x rt" using rt0 by simp
    moreover have "\<forall>y r. root_of ?ps y r \<longrightarrow> root_of ps2 y r"
      using keep r(5) by simp
    moreover have "dsu_find d x = Some (Inr (d\<lparr>self_p := ps2\<rparr>, rt))"
      using unf r(1) by simp
    ultimately show ?thesis using r(2,3) by auto
  qed
qed



lemma dsu_inv_links:
  assumes "dsu_inv d"
  shows "links (\<lambda>i. sum_list (self_r d) - self_r d ! i) (self_p d)"
  unfolding links_def
proof (intro allI impI conjI)
  fix i assume i: "i < length (self_p d)"
  show "self_p d ! i < length (self_p d)" using assms i by (simp add: dsu_inv_def)
  assume ne: "self_p d ! i \<noteq> i"
  have lt: "self_r d ! i < self_r d ! (self_p d ! i)" using assms i ne by (simp add: dsu_inv_def)
  have "self_p d ! i < length (self_r d)" using assms i by (simp add: dsu_inv_def)
  then have "self_r d ! (self_p d ! i) \<le> sum_list (self_r d)" by (rule elem_le_sum_list)
  with lt show "sum_list (self_r d) - self_r d ! (self_p d ! i) < sum_list (self_r d) - self_r d ! i"
    by arith
qed

lemma links_dsu_inv:
  assumes "links (\<lambda>i. B - self_r d ! i) (self_p d)" "length (self_r d) = length (self_p d)"
  shows "dsu_inv d"
  unfolding dsu_inv_def
proof (intro allI impI conjI)
  show "length (self_r d) = length (self_p d)" by (rule assms(2))
next
  fix i assume i: "i < length (self_p d)"
  show "self_p d ! i < length (self_p d)"
    using assms(1) i by (simp add: links_def)
  assume "self_p d ! i \<noteq> i"
  then have "B - self_r d ! (self_p d ! i) < B - self_r d ! i"
    using assms(1) i by (simp add: links_def)
  then show "self_r d ! i < self_r d ! (self_p d ! i)" by simp
qed

lemma dsu_inv_forest: "dsu_inv d \<Longrightarrow> forest (self_p d)"
  unfolding forest_def by (blast dest: dsu_inv_links)

lemma roots_kept_iff:
  assumes "links h ps" "length ps' = length ps"
    and keep: "\<And>y r. root_of ps y r \<Longrightarrow> root_of ps' y r"
  shows "root_of ps' y r \<longleftrightarrow> root_of ps y r"
proof
  assume a: "root_of ps' y r"
  then have "y < length ps" using root_of_dom assms(2) by fastforce
  then obtain r0 where r0: "root_of ps y r0" using root_of_total [OF assms(1)] by blast
  then have "root_of ps' y r0" by (rule keep)
  then have "r0 = r" using a by (rule root_of_fun)
  then show "root_of ps y r" using r0 by simp
qed (rule keep)

lemma dsu_find_inv:
  assumes "dsu_inv d" "x < length (self_p d)"
  shows "\<exists>d' rt. dsu_find d x = Some (Inr (d', rt)) \<and> dsu_inv d' \<and> self_r d' = self_r d \<and>
           length (self_p d') = length (self_p d) \<and> root_of (self_p d) x rt \<and>
           (\<forall>y r. root_of (self_p d') y r \<longleftrightarrow> root_of (self_p d) y r)"
proof -
  let ?h = "\<lambda>i. sum_list (self_r d) - self_r d ! i"
  have l: "links ?h (self_p d)" using assms(1) by (rule dsu_inv_links)
  from dsu_find_correct [OF l assms(2)] obtain ps' rt where r:
    "dsu_find d x = Some (Inr (d\<lparr>self_p := ps'\<rparr>, rt))" "links ?h ps'"
    "length ps' = length (self_p d)" "root_of (self_p d) x rt"
    "\<forall>y r. root_of (self_p d) y r \<longrightarrow> root_of ps' y r"
    by blast
  have "length (self_r (d\<lparr>self_p := ps'\<rparr>)) = length (self_p (d\<lparr>self_p := ps'\<rparr>))"
    using assms(1) r(3) by (simp add: dsu_inv_def)
  moreover have "links (\<lambda>i. sum_list (self_r d) - self_r (d\<lparr>self_p := ps'\<rparr>) ! i) (self_p (d\<lparr>self_p := ps'\<rparr>))"
    using r(2) by simp
  ultimately have inv: "dsu_inv (d\<lparr>self_p := ps'\<rparr>)" by (intro links_dsu_inv)
  have keep: "root_of ps' y r \<longleftrightarrow> root_of (self_p d) y r" for y r
  proof (rule roots_kept_iff [OF l r(3)])
    fix y r assume "root_of (self_p d) y r"
    then show "root_of ps' y r" using r(5) by simp
  qed
  show ?thesis
  proof (intro exI conjI)
    show "dsu_find d x = Some (Inr (d\<lparr>self_p := ps'\<rparr>, rt))" by (rule r(1))
    show "dsu_inv (d\<lparr>self_p := ps'\<rparr>)" by (rule inv)
    show "self_r (d\<lparr>self_p := ps'\<rparr>) = self_r d" by simp
    show "length (self_p (d\<lparr>self_p := ps'\<rparr>)) = length (self_p d)" using r(3) by simp
    show "root_of (self_p d) x rt" by (rule r(4))
    show "\<forall>y r. root_of (self_p (d\<lparr>self_p := ps'\<rparr>)) y r \<longleftrightarrow> root_of (self_p d) y r"
      using keep by simp
  qed
qed

lemma root_of_link:
  assumes a: "a < length ps" "ps ! a = a" and b: "b < length ps" "ps ! b = b" and ne: "a \<noteq> b"
    and r: "root_of ps y rt"
  shows "root_of (ps[b := a]) y (if rt = b then a else rt)"
  using r
proof (induction rule: root_of.induct)
  case (root_self y)
  show ?case
  proof (cases "y = b")
    case True
    have "root_of (ps[b := a]) a a" using a ne by (simp add: root_of.root_self)
    then have 3: "root_of (ps[b := a]) (ps[b := a] ! b) a" using b by simp
    have 1: "b < length (ps[b := a])" using b by simp
    have 2: "ps[b := a] ! b \<noteq> b" using b ne by auto
    have "root_of (ps[b := a]) b a" using 1 2 3 by (rule root_of.root_step)
    then show ?thesis using True by simp
  next
    case False
    have "root_of (ps[b := a]) y y" using root_self False by (simp add: root_of.root_self)
    then show ?thesis using False by simp
  qed
next
  case (root_step y rt)
  have yb: "y \<noteq> b" using root_step.hyps b by auto
  have "y < length (ps[b := a])" using root_step.hyps by simp
  moreover have "ps[b := a] ! y \<noteq> y" using root_step.hyps yb by simp
  moreover have "root_of (ps[b := a]) (ps[b := a] ! y) (if rt = b then a else rt)"
    using root_step.IH yb by simp
  ultimately show ?case by (rule root_of.root_step)
qed

lemma same_set_roots:
  assumes "root_of ps x rx" "root_of ps y ry"
  shows "same_set ps x y \<longleftrightarrow> rx = ry"
proof
  assume "same_set ps x y"
  then obtain rt where "root_of ps x rt" "root_of ps y rt" unfolding same_set_def by blast
  then have "rx = rt" "ry = rt" using assms by (auto dest: root_of_fun)
  then show "rx = ry" by simp
next
  assume "rx = ry"
  then show "same_set ps x y" unfolding same_set_def using assms by blast
qed

lemma same_set_link:
  assumes l: "links h ps"
    and a: "root_of ps u a" and b: "root_of ps v b" and ne: "a \<noteq> b"
    and l': "links h' (ps[b := a])"
    and x: "x < length ps" and y: "y < length ps"
  shows "same_set (ps[b := a]) x y \<longleftrightarrow>
           same_set ps x y \<or> (same_set ps x u \<and> same_set ps v y) \<or> (same_set ps x v \<and> same_set ps u y)"
proof -
  let ?ps' = "ps[b := a]"
  obtain rx where rx: "root_of ps x rx" using root_of_total [OF l x] by blast
  obtain ry where ry: "root_of ps y ry" using root_of_total [OF l y] by blast
  have ra: "a < length ps" "ps ! a = a" using root_of_is_root [OF a] by auto
  have rb: "b < length ps" "ps ! b = b" using root_of_is_root [OF b] by auto
  have rx': "root_of ?ps' x (if rx = b then a else rx)"
    using root_of_link [OF ra rb ne rx] .
  have ry': "root_of ?ps' y (if ry = b then a else ry)"
    using root_of_link [OF ra rb ne ry] .
  have new: "same_set ?ps' x y \<longleftrightarrow> (if rx = b then a else rx) = (if ry = b then a else ry)"
    using rx' ry' by (rule same_set_roots)
  have sxy: "same_set ps x y \<longleftrightarrow> rx = ry" using rx ry by (rule same_set_roots)
  have sxu: "same_set ps x u \<longleftrightarrow> rx = a" using rx a by (rule same_set_roots)
  have sxv: "same_set ps x v \<longleftrightarrow> rx = b" using rx b by (rule same_set_roots)
  have suy: "same_set ps u y \<longleftrightarrow> a = ry" using a ry by (rule same_set_roots)
  have svy: "same_set ps v y \<longleftrightarrow> b = ry" using b ry by (rule same_set_roots)
  show ?thesis unfolding new sxy sxu sxv suy svy using ne by auto
qed



lemma same_set_cong:
  assumes "\<forall>y r. root_of ps' y r \<longleftrightarrow> root_of ps y r"
  shows "same_set ps' x y \<longleftrightarrow> same_set ps x y"
  unfolding same_set_def using assms by simp

lemma same_set_sym: "same_set ps x y \<Longrightarrow> same_set ps y x"
  unfolding same_set_def by blast

lemma same_set_trans:
  assumes "same_set ps x y" "same_set ps y z"
  shows "same_set ps x z"
proof -
  obtain r1 where r1: "root_of ps x r1" "root_of ps y r1" using assms(1) unfolding same_set_def by blast
  obtain r2 where r2: "root_of ps y r2" "root_of ps z r2" using assms(2) unfolding same_set_def by blast
  have "r1 = r2" using r1(2) r2(1) by (rule root_of_fun)
  then show ?thesis unfolding same_set_def using r1(1) r2(2) by blast
qed

lemma dsu_inv_link:
  assumes inv: "dsu_inv d"
    and u: "u < length (self_p d)" "self_p d ! u = u"
    and v: "v < length (self_p d)" "self_p d ! v = v"
    and p': "self_p d' = (self_p d)[v := u]"
    and len: "length (self_r d') = length (self_r d)"
    and lt: "self_r d' ! v < self_r d' ! u"
    and same: "\<forall>i < length (self_p d). i \<noteq> u \<longrightarrow> self_r d' ! i = self_r d ! i"
    and ge: "self_r d ! u \<le> self_r d' ! u"
  shows "dsu_inv d'"
  unfolding dsu_inv_def
proof (intro allI impI conjI)
  show "length (self_r d') = length (self_p d')" using inv len p' by (simp add: dsu_inv_def)
next
  fix i assume "i < length (self_p d')"
  then have i: "i < length (self_p d)" using p' by simp
  have pi: "self_p d ! i < length (self_p d)" using inv i by (simp add: dsu_inv_def)
  show "self_p d' ! i < length (self_p d')"
    using p' i u(1) pi by (cases "i = v") auto
  assume ne: "self_p d' ! i \<noteq> i"
  show "self_r d' ! i < self_r d' ! (self_p d' ! i)"
  proof (cases "i = v")
    case True
    then show ?thesis using p' v(1) lt by simp
  next
    case False
    then have eq: "self_p d' ! i = self_p d ! i" using p' by simp
    then have ne': "self_p d ! i \<noteq> i" using ne by simp
    then have iu: "i \<noteq> u" using u(2) by auto
    have "self_r d ! i < self_r d ! (self_p d ! i)" using inv i ne' by (simp add: dsu_inv_def)
    moreover have "self_r d' ! i = self_r d ! i" using same i iu by simp
    moreover have "self_r d ! (self_p d ! i) \<le> self_r d' ! (self_p d ! i)"
      using same pi ge by (cases "self_p d ! i = u") auto
    ultimately show ?thesis using eq by simp
  qed
qed

lemma rtrancl_insert_both:
  assumes "sym R"
  shows "(x, y) \<in> (insert (a, b) (insert (b, a) R))\<^sup>* \<longleftrightarrow>
           (x, y) \<in> R\<^sup>* \<or> ((x, a) \<in> R\<^sup>* \<and> (b, y) \<in> R\<^sup>*) \<or> ((x, b) \<in> R\<^sup>* \<and> (a, y) \<in> R\<^sup>*)"
proof -
  have s: "\<And>p q. (p, q) \<in> R\<^sup>* \<Longrightarrow> (q, p) \<in> R\<^sup>*"
    using sym_rtrancl [OF assms] by (simp add: sym_def)
  have t: "\<And>p q r. (p, q) \<in> R\<^sup>* \<Longrightarrow> (q, r) \<in> R\<^sup>* \<Longrightarrow> (p, r) \<in> R\<^sup>*"
    by (rule rtrancl_trans)
  have 1: "(p, q) \<in> (insert (b, a) R)\<^sup>* \<longleftrightarrow> (p, q) \<in> R\<^sup>* \<or> ((p, b) \<in> R\<^sup>* \<and> (a, q) \<in> R\<^sup>*)" for p q
    by (simp add: rtrancl_insert)
  have 2: "(x, y) \<in> (insert (a, b) (insert (b, a) R))\<^sup>* \<longleftrightarrow>
      (x, y) \<in> (insert (b, a) R)\<^sup>* \<or> ((x, a) \<in> (insert (b, a) R)\<^sup>* \<and> (b, y) \<in> (insert (b, a) R)\<^sup>*)"
    by (simp add: rtrancl_insert)
  show ?thesis unfolding 2 1 by (blast intro: s t)
qed

lemma dsu_union_correct:
  assumes inv: "dsu_inv d" and a: "a < length (self_p d)" and b: "b < length (self_p d)"
  shows "\<exists>d'. dsu_union d a b = Some (Inr d') \<and> dsu_inv d' \<and>
           length (self_p d') = length (self_p d) \<and>
           (\<forall>x < length (self_p d). \<forall>y < length (self_p d).
              same_set (self_p d') x y \<longleftrightarrow> merged (self_p d) a b x y)"
proof -
  from dsu_find_inv [OF inv a] obtain d1 ra where f1:
    "dsu_find d a = Some (Inr (d1, ra))" "dsu_inv d1" "self_r d1 = self_r d"
    "length (self_p d1) = length (self_p d)" "root_of (self_p d) a ra"
    "\<forall>y r. root_of (self_p d1) y r \<longleftrightarrow> root_of (self_p d) y r"
    by blast
  have b1: "b < length (self_p d1)" using b f1(4) by simp
  from dsu_find_inv [OF f1(2) b1] obtain d2 rb where f2:
    "dsu_find d1 b = Some (Inr (d2, rb))" "dsu_inv d2" "self_r d2 = self_r d1"
    "length (self_p d2) = length (self_p d1)" "root_of (self_p d1) b rb"
    "\<forall>y r. root_of (self_p d2) y r \<longleftrightarrow> root_of (self_p d1) y r"
    by blast
  let ?n = "length (self_p d)"
  let ?ps = "self_p d2"
  have len2: "length ?ps = ?n" using f1(4) f2(4) by simp
  have roots: "\<forall>y r. root_of ?ps y r \<longleftrightarrow> root_of (self_p d) y r" using f1(6) f2(6) by simp
  have ss: "same_set ?ps x y \<longleftrightarrow> same_set (self_p d) x y" for x y
    using roots by (rule same_set_cong)
  have mm: "merged ?ps u v x y \<longleftrightarrow> merged (self_p d) u v x y" for u v x y
    unfolding merged_def ss ..
  have ra: "root_of ?ps a ra" using f1(5) roots by simp
  have rb: "root_of ?ps b rb" using f2(5) f2(6) by simp
  have ra_root: "ra < length ?ps" "?ps ! ra = ra" using root_of_is_root [OF ra] by auto
  have rb_root: "rb < length ?ps" "?ps ! rb = rb" using root_of_is_root [OF rb] by auto
  have rlen: "length (self_r d2) = length ?ps" using f2(2) by (simp add: dsu_inv_def)
  have start: "dsu_union d a b =
       (if ra = rb then Some (Inr d2)
        else if length (self_r d2) \<le> ra \<or> length (self_r d2) \<le> rb then Some (Inl IndexError)
        else let (ra', rb') = (if self_r d2 ! ra < self_r d2 ! rb then (rb, ra) else (ra, rb))
             in if length (self_p d2) \<le> rb' then Some (Inl IndexError)
                else let d3 = d2\<lparr>self_p := (self_p d2)[rb' := ra']\<rparr>
                     in if self_r d3 ! ra' = self_r d3 ! rb'
                        then Some (Inr (d3\<lparr>self_r := (self_r d3)[ra' := self_r d3 ! ra' + 1]\<rparr>))
                        else Some (Inr d3))"
    unfolding dsu_union_def by (simp add: bind_res_def f1(1) f2(1))
  show ?thesis
  proof (cases "ra = rb")
    case True
    have res: "dsu_union d a b = Some (Inr d2)" unfolding start using True by simp
    have sab: "same_set ?ps a b" unfolding same_set_def using ra rb True by blast
    have "same_set ?ps x y \<longleftrightarrow> merged ?ps a b x y" for x y
      unfolding merged_def
      using sab by (blast intro: same_set_sym same_set_trans)
    then have "\<forall>x < ?n. \<forall>y < ?n. same_set ?ps x y \<longleftrightarrow> merged (self_p d) a b x y"
      using mm by simp
    then show ?thesis using res f2(2) len2 by blast
  next
    case False
    have lh: "links (\<lambda>i. sum_list (self_r d2) - self_r d2 ! i) ?ps"
      using f2(2) by (rule dsu_inv_links)
    have fin: "\<exists>d'. dsu_union d a b = Some (Inr d') \<and> dsu_inv d' \<and> length (self_p d') = ?n \<and>
        (\<exists>u v ru rv. self_p d' = ?ps[rv := ru] \<and> root_of ?ps u ru \<and> root_of ?ps v rv \<and> ru \<noteq> rv
           \<and> (\<forall>x y. merged ?ps u v x y \<longleftrightarrow> merged ?ps a b x y))"
    proof (cases "self_r d2 ! ra < self_r d2 ! rb")
      case lt: True
      let ?d' = "d2\<lparr>self_p := ?ps[ra := rb]\<rparr>"
      have res: "dsu_union d a b = Some (Inr ?d')"
        unfolding start using False lt ra_root rb_root rlen by simp
      have "dsu_inv ?d'"
        using f2(2) rb_root ra_root
        by (rule dsu_inv_link) (use lt in auto)
      moreover have "\<forall>x y. merged ?ps b a x y \<longleftrightarrow> merged ?ps a b x y"
        unfolding merged_def by blast
      ultimately show ?thesis using res len2 ra rb False
        by (intro exI [of _ ?d'] conjI exI [of _ b] exI [of _ a] exI [of _ rb] exI [of _ ra]) auto
    next
      case ge: False
      show ?thesis
      proof (cases "self_r d2 ! ra = self_r d2 ! rb")
        case eq: True
        let ?d' = "d2\<lparr>self_p := ?ps[rb := ra], self_r := (self_r d2)[ra := self_r d2 ! ra + 1]\<rparr>"
        have res: "dsu_union d a b = Some (Inr ?d')"
          unfolding start using False ge eq ra_root rb_root rlen by simp
        have "dsu_inv ?d'"
          using f2(2) ra_root rb_root
          by (rule dsu_inv_link) (use eq False ra_root rlen in auto)
        then show ?thesis using res len2 ra rb False
          by (intro exI [of _ ?d'] conjI exI [of _ a] exI [of _ b] exI [of _ ra] exI [of _ rb]) auto
      next
        case neq: False
        let ?d' = "d2\<lparr>self_p := ?ps[rb := ra]\<rparr>"
        have res: "dsu_union d a b = Some (Inr ?d')"
          unfolding start using False ge neq ra_root rb_root rlen by simp
        have "dsu_inv ?d'"
          using f2(2) ra_root rb_root
          by (rule dsu_inv_link) (use ge neq in auto)
        then show ?thesis using res len2 ra rb False
          by (intro exI [of _ ?d'] conjI exI [of _ a] exI [of _ b] exI [of _ ra] exI [of _ rb]) auto
      qed
    qed
    then obtain d' u v ru rv where d': "dsu_union d a b = Some (Inr d')" "dsu_inv d'"
      "length (self_p d') = ?n" "self_p d' = ?ps[rv := ru]" "root_of ?ps u ru" "root_of ?ps v rv"
      "ru \<noteq> rv" "\<forall>x y. merged ?ps u v x y \<longleftrightarrow> merged ?ps a b x y"
      by blast
    have l': "links (\<lambda>i. sum_list (self_r d') - self_r d' ! i) (?ps[rv := ru])"
      using dsu_inv_links [OF d'(2)] d'(4) by simp
    have "same_set (self_p d') x y \<longleftrightarrow> merged (self_p d) a b x y"
      if "x < ?n" "y < ?n" for x y
    proof -
      have "same_set (?ps[rv := ru]) x y \<longleftrightarrow> merged ?ps u v x y"
        unfolding merged_def
        using lh d'(5,6,7) l' by (rule same_set_link) (use that len2 in auto)
      then show ?thesis using d'(4,8) mm by simp
    qed
    then show ?thesis using d'(1,2,3) by blast
  qed
qed

lemma dsu_init_inv: "dsu_inv (DSU n)"
  by (simp add: dsu_inv_def DSU_def)

lemma dsu_init_same_set:
  assumes "x < n" "y < n"
  shows "same_set (self_p (DSU n)) x y \<longleftrightarrow> x = y"
proof -
  have "root_of [0..<n] x x" using assms by (simp add: root_self)
  moreover have "root_of [0..<n] y y" using assms by (simp add: root_self)
  ultimately show ?thesis by (simp add: DSU_def same_set_roots)
qed

lemma unions_correct:
  assumes "dsu_inv d" "length (self_p d) = n"
    and "\<forall>x < n. \<forall>y < n. same_set (self_p d) x y \<longleftrightarrow> (x, y) \<in> (E \<union> E\<inverse>)\<^sup>*"
    and "\<forall>(a, b) \<in> set pairs. a < n \<and> b < n"
  shows "\<exists>d'. unions d pairs = Some (Inr d') \<and> dsu_inv d' \<and> length (self_p d') = n \<and>
           (\<forall>x < n. \<forall>y < n. same_set (self_p d') x y \<longleftrightarrow>
              (x, y) \<in> ((E \<union> set pairs) \<union> (E \<union> set pairs)\<inverse>)\<^sup>*)"
  using assms
proof (induction pairs arbitrary: d E)
  case Nil
  then show ?case by simp
next
  case (Cons pr pairs)
  obtain a b where pr: "pr = (a, b)" by (cases pr)
  have ab: "a < n" "b < n" using Cons.prems(4) pr by auto
  let ?R = "E \<union> E\<inverse>"
  from dsu_union_correct [of d a b] Cons.prems(1,2) ab
  obtain d1 where d1: "dsu_union d a b = Some (Inr d1)" "dsu_inv d1" "length (self_p d1) = n"
    "\<forall>x < n. \<forall>y < n. same_set (self_p d1) x y \<longleftrightarrow> merged (self_p d) a b x y"
    by auto
  have eqR: "insert (a, b) E \<union> (insert (a, b) E)\<inverse> = insert (a, b) (insert (b, a) ?R)"
    by auto
  have "sym ?R" by (rule sym_Un_converse)
  note ins = rtrancl_insert_both [OF this, of _ _ a b]
  have rel1: "\<forall>x < n. \<forall>y < n. same_set (self_p d1) x y \<longleftrightarrow>
      (x, y) \<in> (insert (a, b) E \<union> (insert (a, b) E)\<inverse>)\<^sup>*"
    unfolding eqR ins using d1(4) Cons.prems(3) ab by (simp add: merged_def)
  have rest: "\<forall>(a, b) \<in> set pairs. a < n \<and> b < n" using Cons.prems(4) by simp
  from Cons.IH [OF d1(2,3) rel1 rest] obtain d' where d':
    "unions d1 pairs = Some (Inr d')" "dsu_inv d'" "length (self_p d') = n"
    "\<forall>x < n. \<forall>y < n. same_set (self_p d') x y \<longleftrightarrow>
        (x, y) \<in> ((insert (a, b) E \<union> set pairs) \<union> (insert (a, b) E \<union> set pairs)\<inverse>)\<^sup>*"
    by blast
  have "unions d (pr # pairs) = Some (Inr d')" using d1(1) d'(1) pr by (simp add: bind_res_def)
  moreover have "insert (a, b) E \<union> set pairs = E \<union> set (pr # pairs)" using pr by auto
  ultimately show ?case using d'(2,3,4) by auto
qed

section \<open>The comparison loops\<close>

lemma bind_res_simps [simp]:
  "bind_res None f = None"
  "bind_res (Some (Inl e)) f = Some (Inl e)"
  "bind_res (Some (Inr v)) f = f v"
  by (simp_all add: bind_res_def)

lemma unions_append:
  "unions d (xs @ ys) = bind_res (unions d xs) (\<lambda>d'. unions d' ys)"
proof (induction xs arbitrary: d)
  case Nil
  show ?case by simp
next
  case (Cons pr xs)
  obtain a b where pr: "pr = (a, b)" by (cases pr)
  show ?case
  proof (cases "dsu_union d a b")
    case None
    then show ?thesis using pr by simp
  next
    case (Some res)
    then show ?thesis using pr Cons.IH by (cases res) simp_all
  qed
qed

lemma compare_row_unions:
  assumes "\<forall>j \<in> set js. j < length hashes"
  shows "for_each js (\<lambda>j (dsu, compared).
       bind_res (get hashes j) (\<lambda>hj.
         if hj < 0 then Some (Inr (dsu, compared))
         else if hamming (hashes ! i) hj \<le> thr
           then bind_res (dsu_union dsu i j) (\<lambda>dsu'. Some (Inr (dsu', compared @ [(i, j)])))
           else Some (Inr (dsu, compared @ [(i, j)])))) (d, cmps)
     = bind_res (unions d (close_pairs thr hashes (row_pairs hashes i js)))
         (\<lambda>d'. Some (Inr (d', cmps @ row_pairs hashes i js)))"
  using assms
proof (induction js arbitrary: d cmps)
  case Nil
  show ?case by (simp add: row_pairs_def close_pairs_def)
next
  case (Cons j js)
  have j: "j < length hashes" using Cons.prems by simp
  have rest: "\<forall>j \<in> set js. j < length hashes" using Cons.prems by simp
  note IH = Cons.IH [OF rest]
  show ?case
  proof (cases "hashes ! j < 0")
    case True
    then show ?thesis using j IH by (simp add: get_def row_pairs_def close_pairs_def)
  next
    case nonneg: False
    show ?thesis
    proof (cases "hamming (hashes ! i) (hashes ! j) \<le> thr")
      case False
      then show ?thesis using j nonneg IH by (simp add: get_def row_pairs_def close_pairs_def)
    next
      case True
      show ?thesis
      proof (cases "dsu_union d i j")
        case None
        then show ?thesis using j nonneg True by (simp add: get_def row_pairs_def close_pairs_def)
      next
        case (Some res)
        then show ?thesis using j nonneg True IH
          by (cases res) (simp_all add: get_def row_pairs_def close_pairs_def)
      qed
    qed
  qed
qed

lemma close_pairs_append:
  "close_pairs thr hashes (xs @ ys) = close_pairs thr hashes xs @ close_pairs thr hashes ys"
  by (simp add: close_pairs_def)

lemma compare_rows_unions:
  assumes "\<forall>i \<in> set rows. i < length hashes" "n \<le> length hashes"
  shows "for_each rows (\<lambda>i (dsu, compared).
       bind_res (get hashes i) (\<lambda>hi.
         if hi < 0 then Some (Inr (dsu, compared))
         else compare_row thr hashes n i hi (dsu, compared))) (d, cmps)
     = bind_res (unions d (close_pairs thr hashes (all_pairs hashes n rows)))
         (\<lambda>d'. Some (Inr (d', cmps @ all_pairs hashes n rows)))"
  using assms(1)
proof (induction rows arbitrary: d cmps)
  case Nil
  show ?case by (simp add: all_pairs_def close_pairs_def)
next
  case (Cons i rows)
  have i: "i < length hashes" using Cons.prems by simp
  have rest: "\<forall>i \<in> set rows. i < length hashes" using Cons.prems by simp
  note IH = Cons.IH [OF rest]
  show ?case
  proof (cases "hashes ! i < 0")
    case True
    then have "all_pairs hashes n (i # rows) = all_pairs hashes n rows" by (simp add: all_pairs_def)
    then show ?thesis using True i IH by (simp add: get_def)
  next
    case False
    let ?row = "row_pairs hashes i [i + 1 ..< n]"
    have ap: "all_pairs hashes n (i # rows) = ?row @ all_pairs hashes n rows"
      using False by (simp add: all_pairs_def)
    have js: "\<forall>j \<in> set [i + 1 ..< n]. j < length hashes" using assms(2) by auto
    have row: "compare_row thr hashes n i (hashes ! i) (d, cmps)
        = bind_res (unions d (close_pairs thr hashes ?row)) (\<lambda>d'. Some (Inr (d', cmps @ ?row)))"
      unfolding compare_row_def by (rule compare_row_unions [OF js])
    show ?thesis
    proof (cases "unions d (close_pairs thr hashes ?row)")
      case None
      then show ?thesis using False i row
        by (simp add: get_def ap close_pairs_append unions_append)
    next
      case (Some res)
      then show ?thesis using False i row IH
        by (cases res) (simp_all add: get_def ap close_pairs_append unions_append)
    qed
  qed
qed

lemma set_all_pairs:
  assumes "length hashes = n"
  shows "set (all_pairs hashes n [0 ..< n]) = {(i, j). i < j \<and> valid hashes i \<and> valid hashes j}"
proof -
  have "(a, b) \<in> set (all_pairs hashes n [0 ..< n]) \<longleftrightarrow> a < b \<and> valid hashes a \<and> valid hashes b"
    for a b
  proof
    assume "(a, b) \<in> set (all_pairs hashes n [0 ..< n])"
    then show "a < b \<and> valid hashes a \<and> valid hashes b"
      using assms by (auto simp: all_pairs_def row_pairs_def valid_def split: if_splits)
  next
    assume r: "a < b \<and> valid hashes a \<and> valid hashes b"
    then have "(a, b) \<in> set (row_pairs hashes a [a + 1 ..< n])"
      using assms by (simp add: row_pairs_def valid_def)
    moreover have "a \<in> set [0 ..< n]" "0 \<le> hashes ! a" using r assms by (auto simp: valid_def)
    ultimately show "(a, b) \<in> set (all_pairs hashes n [0 ..< n])"
      unfolding all_pairs_def set_concat set_map by force
  qed
  then show ?thesis by auto
qed

lemma set_close_pairs:
  assumes "length hashes = n"
  shows "set (close_pairs thr hashes (all_pairs hashes n [0 ..< n])) = similar thr hashes"
  unfolding close_pairs_def similar_def set_filter set_all_pairs [OF assms] by auto

lemma compare_hashes_correct:
  assumes "length hashes = n"
  shows "\<exists>d. compare_hashes thr hashes n = Some (Inr (d, all_pairs hashes n [0 ..< n])) \<and>
           dsu_inv d \<and> length (self_p d) = n \<and>
           (\<forall>x < n. \<forall>y < n. same_set (self_p d) x y \<longleftrightarrow> linked thr hashes x y)"
proof -
  let ?prs = "close_pairs thr hashes (all_pairs hashes n [0 ..< n])"
  have eq: "compare_hashes thr hashes n
      = bind_res (unions (DSU n) ?prs) (\<lambda>d'. Some (Inr (d', [] @ all_pairs hashes n [0 ..< n])))"
    unfolding compare_hashes_def
    by (rule compare_rows_unions) (use assms in auto)
  have rng: "\<forall>(a, b) \<in> set ?prs. a < n \<and> b < n"
    unfolding set_close_pairs [OF assms] using assms by (auto simp: similar_def valid_def)
  have init: "\<forall>x < n. \<forall>y < n. same_set (self_p (DSU n)) x y \<longleftrightarrow> (x, y) \<in> ({} \<union> {}\<inverse>)\<^sup>*"
    using dsu_init_same_set by simp
  have len: "length (self_p (DSU n)) = n" by (simp add: DSU_def)
  from unions_correct [OF dsu_init_inv len init rng]
  obtain d where d: "unions (DSU n) ?prs = Some (Inr d)" "dsu_inv d" "length (self_p d) = n"
    "\<forall>x < n. \<forall>y < n. same_set (self_p d) x y \<longleftrightarrow>
        (x, y) \<in> (({} \<union> set ?prs) \<union> ({} \<union> set ?prs)\<inverse>)\<^sup>*"
    by blast
  have "\<forall>x < n. \<forall>y < n. same_set (self_p d) x y \<longleftrightarrow> linked thr hashes x y"
    using d(4) unfolding linked_def set_close_pairs [OF assms] by simp
  moreover have "compare_hashes thr hashes n = Some (Inr (d, all_pairs hashes n [0 ..< n]))"
    unfolding eq using d(1) by simp
  ultimately show ?thesis using d(2,3) by blast
qed

lemma map_of_setdefault_append:
  "map_of (setdefault_append c k v) =
     (map_of c)(k \<mapsto> (case map_of c k of None \<Rightarrow> [v] | Some vs \<Rightarrow> vs @ [v]))"
  by (induction c k v rule: setdefault_append.induct) (auto simp: fun_eq_iff)

lemma keys_setdefault_append:
  "set (map fst (setdefault_append c k v)) = insert k (set (map fst c))"
  by (induction c k v rule: setdefault_append.induct) auto

lemma distinct_setdefault_append:
  "distinct (map fst c) \<Longrightarrow> distinct (map fst (setdefault_append c k v))"
proof (induction c k v rule: setdefault_append.induct)
  case (1 k v)
  show ?case by simp
next
  case (2 k' vs kvs k v)
  show ?case
  proof (cases "k' = k")
    case True
    then show ?thesis using 2 by simp
  next
    case False
    have "k' \<notin> set (map fst (setdefault_append kvs k v))"
      unfolding keys_setdefault_append using False 2 by simp
    then show ?thesis using False 2 by simp
  qed
qed


section \<open>Components and groups\<close>

lemma comps_of_step:
  assumes "comps_of rep idxs comps"
  shows "comps_of rep (idxs @ [i]) (setdefault_append comps (rep i) i)"
proof -
  have d: "distinct (map fst comps)" using assms by (simp add: comps_of_def)
  have m: "\<And>k. map_of comps k = (if k \<in> rep ` set idxs then Some (bucket rep idxs k) else None)"
    using assms by (simp add: comps_of_def)
  have e: "rep i \<notin> rep ` set idxs \<Longrightarrow> bucket rep idxs (rep i) = []"
    unfolding bucket_def filter_empty_conv by (metis image_eqI)
  have "map_of (setdefault_append comps (rep i) i) k =
      (if k \<in> rep ` set (idxs @ [i]) then Some (bucket rep (idxs @ [i]) k) else None)" for k
    unfolding map_of_setdefault_append using m e by (auto simp: bucket_def)
  then show ?thesis unfolding comps_of_def using distinct_setdefault_append [OF d] by blast
qed

lemma comps_of_fold:
  assumes "comps_of rep pre comps"
  shows "comps_of rep (pre @ idxs) (fold (\<lambda>i c. setdefault_append c (rep i) i) idxs comps)"
  using assms
proof (induction idxs arbitrary: pre comps)
  case Nil
  then show ?case by simp
next
  case (Cons i idxs)
  from Cons.IH [OF comps_of_step [OF Cons.prems, of i]] show ?case by simp
qed

lemma comps_of_values:
  assumes "comps_of rep idxs comps"
  shows "set (map snd comps) = {bucket rep idxs (rep i) | i. i \<in> set idxs}"
proof -
  have d: "distinct (map fst comps)" using assms by (simp add: comps_of_def)
  have m: "\<And>k. map_of comps k = (if k \<in> rep ` set idxs then Some (bucket rep idxs k) else None)"
    using assms by (simp add: comps_of_def)
  have "(k, vs) \<in> set comps \<longleftrightarrow> k \<in> rep ` set idxs \<and> vs = bucket rep idxs k" for k vs
    using map_of_eq_Some_iff [OF d, of k vs] m [of k] by (auto split: if_splits)
  then have "set comps = {(rep i, bucket rep idxs (rep i)) | i. i \<in> set idxs}"
    by auto
  then have "snd ` set comps = snd ` {(rep i, bucket rep idxs (rep i)) | i. i \<in> set idxs}"
    by simp
  also have "\<dots> = {bucket rep idxs (rep i) | i. i \<in> set idxs}" by force
  finally show ?thesis by simp
qed



lemma collect_loop:
  fixes hashes :: "int list"
  assumes "dsu_inv d" "length (self_p d) = n" "length hashes = n" "\<forall>i \<in> set idxs. i < n"
    and "\<forall>i < n. root_of (self_p d) i (rep i)"
  shows "\<exists>d'. for_each idxs (\<lambda>idx (dsu, comps).
       bind_res (get hashes idx) (\<lambda>h.
         if h < 0 then Some (Inr (dsu, comps))
         else bind_res (dsu_find dsu idx) (\<lambda>(dsu', root_idx).
           Some (Inr (dsu', setdefault_append comps root_idx idx))))) (d, comps)
      = Some (Inr (d', fold (\<lambda>i c. setdefault_append c (rep i) i)
                         (filter (\<lambda>i. 0 \<le> hashes ! i) idxs) comps)) \<and>
      dsu_inv d' \<and> length (self_p d') = n \<and> (\<forall>i < n. root_of (self_p d') i (rep i))"
    (is "\<exists>d'. for_each idxs ?B (d, comps) = Some (Inr (d', fold ?F (filter ?P idxs) comps)) \<and> _")
  using assms(1,2,4,5)
proof (induction idxs arbitrary: d comps)
  case Nil
  then show ?case by simp
next
  case (Cons idx idxs)
  have idx: "idx < n" using Cons.prems(3) by simp
  have rest: "\<forall>i \<in> set idxs. i < n" using Cons.prems(3) by simp
  show ?case
  proof (cases "hashes ! idx < 0")
    case True
    have step: "for_each (idx # idxs) ?B (d, comps) = for_each idxs ?B (d, comps)"
      using True idx assms(3) by (simp add: get_def)
    have filt: "filter ?P (idx # idxs) = filter ?P idxs" using True by simp
    from Cons.IH [OF Cons.prems(1,2) rest Cons.prems(4), of comps]
    show ?thesis unfolding step filt .
  next
    case False
    have "idx < length (self_p d)" using idx Cons.prems(2) by simp
    from dsu_find_inv [OF Cons.prems(1) this] obtain d1 rt where f:
      "dsu_find d idx = Some (Inr (d1, rt))" "dsu_inv d1"
      "length (self_p d1) = length (self_p d)" "root_of (self_p d) idx rt"
      "\<forall>y r. root_of (self_p d1) y r \<longleftrightarrow> root_of (self_p d) y r"
      by blast
    have "root_of (self_p d) idx (rep idx)" using Cons.prems(4) idx by simp
    then have rt: "rt = rep idx" using f(4) by (rule_tac root_of_fun)
    have len1: "length (self_p d1) = n" using f(3) Cons.prems(2) by simp
    have roots1: "\<forall>i < n. root_of (self_p d1) i (rep i)" using f(5) Cons.prems(4) by simp
    have step: "for_each (idx # idxs) ?B (d, comps)
        = for_each idxs ?B (d1, setdefault_append comps (rep idx) idx)"
      using False idx assms(3) f(1) rt by (simp add: get_def)
    have filt: "fold ?F (filter ?P (idx # idxs)) comps
        = fold ?F (filter ?P idxs) (setdefault_append comps (rep idx) idx)"
      using False by simp
    from Cons.IH [OF f(2) len1 rest roots1, of "setdefault_append comps (rep idx) idx"]
    show ?thesis unfolding step filt .
  qed
qed

lemma comps_of_distinct_values:
  assumes "comps_of rep idxs comps"
  shows "distinct (map snd comps)"
proof -
  have d: "distinct (map fst comps)" using assms by (simp add: comps_of_def)
  have m: "\<And>k. map_of comps k = (if k \<in> rep ` set idxs then Some (bucket rep idxs k) else None)"
    using assms by (simp add: comps_of_def)
  have mem: "k \<in> rep ` set idxs \<and> vs = bucket rep idxs k" if "(k, vs) \<in> set comps" for k vs
    using map_of_eq_Some_iff [OF d, of k vs] m [of k] that by (auto split: if_splits)
  have key: "k = rep (hd vs) \<and> vs \<noteq> []" if "(k, vs) \<in> set comps" for k vs
  proof -
    from mem [OF that] obtain i where i: "i \<in> set idxs" "k = rep i" "vs = bucket rep idxs k"
      by blast
    then have "i \<in> set vs" by (simp add: bucket_def)
    then have ne: "vs \<noteq> []" by auto
    then have "hd vs \<in> set vs" by simp
    then have "rep (hd vs) = k" using i(3) by (simp add: bucket_def)
    then show ?thesis using ne by simp
  qed
  have "inj_on snd (set comps)"
  proof (rule inj_onI)
    fix p q assume p: "p \<in> set comps" and q: "q \<in> set comps" and e: "snd p = snd q"
    have "fst p = rep (hd (snd p))" using key [of "fst p" "snd p"] p by simp
    moreover have "fst q = rep (hd (snd q))" using key [of "fst q" "snd q"] q by simp
    ultimately show "p = q" using e by (simp add: prod_eq_iff)
  qed
  moreover have "distinct comps" using d by (rule distinct_map [THEN iffD1, THEN conjunct1])
  ultimately show ?thesis by (simp add: distinct_map)
qed

lemma comps_of_empty: "comps_of rep [] []"
  by (simp add: comps_of_def)

lemma sorted_bucket: "sorted (bucket rep (filter P [0 ..< n]) k)"
  unfolding bucket_def by (intro sorted_wrt_filter) simp

lemma find_groups_char:
  assumes "length hashes = length files"
  shows "\<exists>groups. find_groups thr files hashes
             = Some (Inr (groups, all_pairs hashes (length files) [0 ..< length files])) \<and>
           distinct groups \<and>
           set groups = {component thr hashes i | i.
                           valid hashes i \<and> 1 < length (component thr hashes i)}"
proof -
  let ?n = "length files"
  let ?vs = "filter (\<lambda>i. 0 \<le> hashes ! i) [0 ..< ?n]"
  from compare_hashes_correct [OF assms, of thr] obtain d where d:
    "compare_hashes thr hashes ?n = Some (Inr (d, all_pairs hashes ?n [0 ..< ?n]))"
    "dsu_inv d" "length (self_p d) = ?n"
    "\<forall>x < ?n. \<forall>y < ?n. same_set (self_p d) x y \<longleftrightarrow> linked thr hashes x y"
    by blast
  have "\<forall>i. \<exists>rt. i < ?n \<longrightarrow> root_of (self_p d) i rt"
    using root_of_total [OF dsu_inv_links [OF d(2)]] d(3) by auto
  then have "\<exists>rep. \<forall>i. i < ?n \<longrightarrow> root_of (self_p d) i (rep i)" by (rule choice)
  then obtain rep where rep: "\<forall>i < ?n. root_of (self_p d) i (rep i)" by blast
  let ?comps = "fold (\<lambda>i c. setdefault_append c (rep i) i) ?vs []"
  have rng: "\<forall>i \<in> set [0 ..< ?n]. i < ?n" by simp
  from collect_loop [OF d(2,3) assms rng rep, of "[]"] obtain d' where c:
    "collect_components hashes ?n d = Some (Inr (d', ?comps))"
    unfolding collect_components_def by blast
  have res: "find_groups thr files hashes
      = Some (Inr (make_groups files ?comps, all_pairs hashes ?n [0 ..< ?n]))"
    unfolding find_groups_def Let_def using d(1) c by simp
  have co: "comps_of rep ([] @ ?vs) ?comps" using comps_of_empty by (rule comps_of_fold)
  then have vals: "set (map snd ?comps) = {bucket rep ?vs (rep i) | i. i \<in> set ?vs}"
    using comps_of_values by simp
  have dv: "distinct (map snd ?comps)" using co by (rule comps_of_distinct_values)
  have bc: "bucket rep ?vs (rep i) = component thr hashes i" if "i < ?n" for i
  proof -
    have "(0 \<le> hashes ! j \<and> rep j = rep i) \<longleftrightarrow> (valid hashes j \<and> linked thr hashes i j)"
      if "j \<in> set [0 ..< ?n]" for j
    proof -
      have j: "j < ?n" using that by simp
      have "same_set (self_p d) i j \<longleftrightarrow> rep i = rep j"
        using rep \<open>i < ?n\<close> j by (intro same_set_roots) auto
      then show ?thesis using d(4) \<open>i < ?n\<close> j assms by (auto simp: valid_def)
    qed
    then have "filter (\<lambda>j. 0 \<le> hashes ! j \<and> rep j = rep i) [0 ..< ?n]
        = filter (\<lambda>j. valid hashes j \<and> linked thr hashes i j) [0 ..< ?n]"
      by (intro filter_cong) auto
    then show ?thesis unfolding bucket_def component_def filter_filter using assms
      by (simp add: conj_commute)
  qed
  have vs: "i \<in> set ?vs \<longleftrightarrow> valid hashes i" for i
    using assms by (auto simp: valid_def)
  have vals': "set (map snd ?comps) = {component thr hashes i | i. valid hashes i}"
  proof -
    have "{bucket rep ?vs (rep i) | i. i \<in> set ?vs} = {bucket rep ?vs (rep i) | i. valid hashes i}"
      using vs by simp
    also have "\<dots> = {component thr hashes i | i. valid hashes i}"
      using bc assms by (metis (no_types, lifting) valid_def)
    finally show ?thesis unfolding vals .
  qed
  have srt: "sort g = g" if "g \<in> set (map snd ?comps)" for g
  proof -
    have "g \<in> {bucket rep ?vs (rep i) | i. i \<in> set ?vs}" using that vals by blast
    then obtain i where "g = bucket rep ?vs (rep i)" by blast
    then have "sorted g" using sorted_bucket by simp
    then show ?thesis by (simp add: sort_key_id_if_sorted)
  qed
  have "map sort (filter (\<lambda>idxs. 1 < length idxs) (map snd ?comps))
      = filter (\<lambda>idxs. 1 < length idxs) (map snd ?comps)"
    using srt by (intro map_idI) simp
  then have mg: "make_groups files ?comps
      = sort_key (\<lambda>g. (length g, map (\<lambda>i. files ! i) g))
          (filter (\<lambda>idxs. 1 < length idxs) (map snd ?comps))"
    unfolding make_groups_def by simp
  have "distinct (make_groups files ?comps)"
    unfolding mg using dv by simp
  moreover have "set (make_groups files ?comps) = {g \<in> set (map snd ?comps). 1 < length g}"
    unfolding mg by auto
  then have "set (make_groups files ?comps)
      = {component thr hashes i | i. valid hashes i \<and> 1 < length (component thr hashes i)}"
    unfolding vals' by auto
  ultimately show ?thesis using res by blast
qed

section \<open>Properties of the distance metric\<close>

lemma bit_count_nat_bound: "n < 2 ^ k \<Longrightarrow> bit_count_nat n \<le> k"
proof (induction k arbitrary: n)
  case 0
  then show ?case by (simp add: bit_count_nat.simps)
next
  case (Suc k)
  have "n div 2 < 2 ^ k" using Suc.prems by simp
  then have "bit_count_nat (n div 2) \<le> k" by (rule Suc.IH)
  moreover have "n mod 2 \<le> 1" by simp
  ultimately show ?case by (subst bit_count_nat.simps) simp
qed

lemma bit_count_nat_zero_iff: "bit_count_nat n = 0 \<longleftrightarrow> n = 0"
proof (induction n rule: bit_count_nat.induct)
  case (1 n)
  show ?case
  proof (cases "n = 0")
    case True
    then show ?thesis by (simp add: bit_count_nat.simps)
  next
    case False
    with 1 have ih: "bit_count_nat (n div 2) = 0 \<longleftrightarrow> n div 2 = 0" by simp
    show ?thesis using False ih
      by (subst bit_count_nat.simps) (auto simp: div_eq_0_iff)
  qed
qed

lemma hamming_range:
  assumes "0 \<le> a" "a < 2 ^ 64" "0 \<le> b" "b < 2 ^ 64"
  shows "0 \<le> hamming a b \<and> hamming a b \<le> 64"
proof -
  have nn: "0 \<le> a XOR b" using assms by simp
  have "a XOR b < 2 ^ 64" using assms by (intro XOR_upper) auto
  then have "nat \<bar>a XOR b\<bar> < 2 ^ 64" using nn by (simp add: nat_less_iff)
  then have "bit_count_nat (nat \<bar>a XOR b\<bar>) \<le> 64" by (rule bit_count_nat_bound)
  then show ?thesis by (simp add: hamming_def bit_count_def)
qed

text \<open>
  Claim C5. For all 64-bit fingerprints \<open>a\<close> and \<open>b\<close> the distance is symmetric,
  the distance of a fingerprint to itself is zero, and the distance lies between 0 and 64.
  The function is pure and has no failure mode: it is a total function returning a plain
  integer.
\<close>

theorem hamming_metric_basics:
  assumes "0 \<le> a" "a < 2 ^ 64" "0 \<le> b" "b < 2 ^ 64"
  shows "hamming a b = hamming b a \<and> hamming a a = 0 \<and> 0 \<le> hamming a b \<and> hamming a b \<le> 64"
proof -
  have "hamming a b = hamming b a" by (simp add: hamming_def xor.commute)
  moreover have "hamming a a = 0" by (simp add: hamming_def bit_count_def bit_count_nat.simps)
  ultimately show ?thesis using hamming_range [OF assms] by simp
qed

theorem hamming_metric_basics_witness:
  "hamming 5 3 = hamming 3 5 \<and> hamming 5 5 = 0 \<and> 0 \<le> hamming 5 3 \<and> hamming 5 3 \<le> 64
     \<and> hamming 5 3 = 2"
proof -
  have "hamming 5 3 = 2" by code_simp
  then show ?thesis using hamming_metric_basics [of 5 3] by simp
qed

section \<open>Claims about the disjoint sets\<close>

lemma dsu_find_twice:
  assumes "dsu_inv d" "x < length (self_p d)" "y < length (self_p d)"
  shows "\<exists>d1 rx d2 ry. dsu_find d x = Some (Inr (d1, rx)) \<and> dsu_find d1 y = Some (Inr (d2, ry)) \<and>
           (rx = ry \<longleftrightarrow> same_set (self_p d) x y)"
proof -
  from dsu_find_inv [OF assms(1,2)] obtain d1 rx where f1:
    "dsu_find d x = Some (Inr (d1, rx))" "dsu_inv d1"
    "length (self_p d1) = length (self_p d)" "root_of (self_p d) x rx"
    "\<forall>y r. root_of (self_p d1) y r \<longleftrightarrow> root_of (self_p d) y r"
    by blast
  have y1: "y < length (self_p d1)" using assms(3) f1(3) by simp
  from dsu_find_inv [OF f1(2) y1] obtain d2 ry where f2:
    "dsu_find d1 y = Some (Inr (d2, ry))" "root_of (self_p d1) y ry"
    by blast
  have "root_of (self_p d) y ry" using f2(2) f1(5) by simp
  then have "same_set (self_p d) x y \<longleftrightarrow> rx = ry" using f1(4) by (intro same_set_roots)
  then show ?thesis using f1(1) f2(1) by blast
qed

text \<open>
  Claim C1. Start from \<open>DSU(n)\<close> and call \<open>union(a, b)\<close> for each pair of a list, all
  indices below \<open>n\<close>. Every call returns, and afterwards, for all \<open>x\<close> and \<open>y\<close> below
  \<open>n\<close>, the calls \<open>find(x)\<close> and then \<open>find(y)\<close> return the same root if and only if
  \<open>x\<close> and \<open>y\<close> are connected by the pairs given to \<open>union\<close>, read as undirected edges
  (reflexive and transitive closure; for \<open>x = y\<close> the roots are always equal).
\<close>

theorem dsu_find_eq_iff_connected:
  assumes "\<forall>(a, b) \<in> set pairs. a < n \<and> b < n" "x < n" "y < n"
  shows "\<exists>d d1 rx d2 ry. unions (DSU n) pairs = Some (Inr d) \<and>
           dsu_find d x = Some (Inr (d1, rx)) \<and> dsu_find d1 y = Some (Inr (d2, ry)) \<and>
           (rx = ry \<longleftrightarrow> (x, y) \<in> (set pairs \<union> (set pairs)\<inverse>)\<^sup>*)"
proof -
  have init: "\<forall>x < n. \<forall>y < n. same_set (self_p (DSU n)) x y \<longleftrightarrow> (x, y) \<in> ({} \<union> {}\<inverse>)\<^sup>*"
    using dsu_init_same_set by simp
  have len: "length (self_p (DSU n)) = n" by (simp add: DSU_def)
  from unions_correct [OF dsu_init_inv len init assms(1)]
  obtain d where d: "unions (DSU n) pairs = Some (Inr d)" "dsu_inv d" "length (self_p d) = n"
    "\<forall>x < n. \<forall>y < n. same_set (self_p d) x y \<longleftrightarrow>
        (x, y) \<in> (({} \<union> set pairs) \<union> ({} \<union> set pairs)\<inverse>)\<^sup>*"
    by blast
  have xy: "x < length (self_p d)" "y < length (self_p d)" using assms(2,3) d(3) by simp_all
  from dsu_find_twice [OF d(2) xy] obtain d1 rx d2 ry where f:
    "dsu_find d x = Some (Inr (d1, rx))" "dsu_find d1 y = Some (Inr (d2, ry))"
    "rx = ry \<longleftrightarrow> same_set (self_p d) x y"
    by blast
  have "rx = ry \<longleftrightarrow> (x, y) \<in> (set pairs \<union> (set pairs)\<inverse>)\<^sup>*"
    using f(3) d(4) assms(2,3) by simp
  then show ?thesis using d(1) f(1,2) by blast
qed

theorem dsu_find_eq_iff_connected_witness:
  "unions (DSU 4) [(0, 1), (2, 1)] = Some (Inr \<lparr>self_p = [0, 0, 0, 3], self_r = [1, 0, 0, 0]\<rparr>) \<and>
   (\<exists>d d1 rx d2 ry. unions (DSU 4) [(0, 1), (2, 1)] = Some (Inr d) \<and>
      dsu_find d 0 = Some (Inr (d1, rx)) \<and> dsu_find d1 2 = Some (Inr (d2, ry)) \<and>
      (rx = ry \<longleftrightarrow> (0, 2) \<in> (set [(0, 1), (2 :: nat, 1 :: nat)] \<union> (set [(0, 1), (2, 1)])\<inverse>)\<^sup>*))"
proof -
  have h: "\<forall>(a, b) \<in> set [(0, 1), (2 :: nat, 1 :: nat)]. a < 4 \<and> b < 4" by simp
  have e: "unions (DSU 4) [(0, 1), (2, 1)]
      = Some (Inr \<lparr>self_p = [0, 0, 0, 3], self_r = [1, 0, 0, 0]\<rparr>)"
    by code_simp
  show ?thesis using e dsu_find_eq_iff_connected [OF h, of 0 2] by simp
qed

text \<open>
  Claim C9. On a parent list that is a forest (every parent an index of the list, no cycle
  but the loops at the roots), \<open>find(x)\<close> for an index \<open>x\<close> of the list returns: the
  result is an index of the list that is its own parent, before the call and in the list
  the call leaves behind, which has the same length. The states that \<open>DSU(n)\<close>, \<open>find\<close>
  and \<open>union\<close> produce are such forests (lemmas \<open>dsu_init_inv\<close>, \<open>dsu_find_inv\<close>,
  \<open>dsu_union_correct\<close> and \<open>dsu_inv_forest\<close>).
\<close>

theorem dsu_find_returns_root:
  assumes "forest (self_p d)" "x < length (self_p d)"
  shows "\<exists>d' rt. dsu_find d x = Some (Inr (d', rt)) \<and> rt < length (self_p d) \<and>
           self_p d ! rt = rt \<and> self_p d' ! rt = rt \<and> length (self_p d') = length (self_p d)"
proof -
  obtain h where h: "links h (self_p d)" using assms(1) unfolding forest_def by blast
  from dsu_find_correct [OF h assms(2)] obtain ps' rt where r:
    "dsu_find d x = Some (Inr (d\<lparr>self_p := ps'\<rparr>, rt))" "length ps' = length (self_p d)"
    "root_of (self_p d) x rt" "\<forall>y r. root_of (self_p d) y r \<longrightarrow> root_of ps' y r"
    by blast
  have "root_of ps' x rt" using r(3,4) by simp
  then have "ps' ! rt = rt" using root_of_is_root by blast
  moreover have "rt < length (self_p d)" "self_p d ! rt = rt"
    using root_of_is_root [OF r(3)] by simp_all
  ultimately show ?thesis using r(1,2) by simp
qed

theorem dsu_find_returns_root_witness:
  "forest [0, 0, 1, 2] \<and>
   dsu_find \<lparr>self_p = [0, 0, 1, 2], self_r = [3, 2, 1, 0]\<rparr> 3
     = Some (Inr (\<lparr>self_p = [0, 0, 1, 1], self_r = [3, 2, 1, 0]\<rparr>, 0)) \<and>
   (\<exists>d' rt. dsu_find \<lparr>self_p = [0, 0, 1, 2], self_r = [3, 2, 1, 0]\<rparr> 3 = Some (Inr (d', rt)) \<and>
      rt < 4 \<and> [0, 0, 1, 2] ! rt = rt \<and> self_p d' ! rt = rt \<and> length (self_p d') = 4)"
proof -
  have "links (\<lambda>i. i) [0, 0, 1, 2]"
    unfolding links_def by (simp add: nth_Cons' less_Suc_eq numeral_Bit0 numeral_Bit1 flip: numeral_eq_Suc)
  then have f: "forest (self_p \<lparr>self_p = [0, 0, 1, 2], self_r = [3, 2, 1, 0]\<rparr>)"
    unfolding forest_def by auto
  have e: "dsu_find \<lparr>self_p = [0, 0, 1, 2], self_r = [3, 2, 1, 0]\<rparr> 3
      = Some (Inr (\<lparr>self_p = [0, 0, 1, 1], self_r = [3, 2, 1, 0]\<rparr>, 0))"
    by code_simp
  show ?thesis using f e dsu_find_returns_root [OF f, of 3] by simp
qed


section \<open>Claims about grouping and resolving\<close>

lemma component_member:
  "j \<in> set (component thr hashes i) \<longleftrightarrow> valid hashes j \<and> linked thr hashes i j"
  by (auto simp: component_def valid_def)

lemma linked_refl: "linked thr hashes i i"
  by (simp add: linked_def)

lemma similar_mono: "T \<le> T' \<Longrightarrow> similar T hashes \<subseteq> similar T' hashes"
  by (auto simp: similar_def)

lemma linked_mono:
  assumes "T \<le> T'" "linked T hashes i j"
  shows "linked T' hashes i j"
proof -
  have "similar T hashes \<union> (similar T hashes)\<inverse> \<subseteq> similar T' hashes \<union> (similar T' hashes)\<inverse>"
    using similar_mono [OF assms(1)] by blast
  then have "(similar T hashes \<union> (similar T hashes)\<inverse>)\<^sup>*
      \<subseteq> (similar T' hashes \<union> (similar T' hashes)\<inverse>)\<^sup>*"
    by (rule rtrancl_mono)
  then show ?thesis using assms(2) unfolding linked_def by blast
qed

lemma length_filter_mono:
  "(\<forall>x \<in> set xs. P x \<longrightarrow> Q x) \<Longrightarrow> length (filter P xs) \<le> length (filter Q xs)"
  by (induction xs) auto

lemma component_mono:
  assumes "T \<le> T'"
  shows "set (component T hashes i) \<subseteq> set (component T' hashes i)"
    and "length (component T hashes i) \<le> length (component T' hashes i)"
proof -
  show "set (component T hashes i) \<subseteq> set (component T' hashes i)"
    using linked_mono [OF assms] by (auto simp: component_member)
  show "length (component T hashes i) \<le> length (component T' hashes i)"
    unfolding component_def using linked_mono [OF assms] by (intro length_filter_mono) auto
qed

lemma resolve_group_sorted:
  assumes "g \<noteq> []"
  shows "\<exists>keep dupes. resolve_group files g = Inr (keep, dupes) \<and>
           keep # dupes = sort (map (\<lambda>i. files ! i) g)"
proof -
  have "length (sort (map (\<lambda>i. files ! i) g)) = length g" by simp
  then have "sort (map (\<lambda>i. files ! i) g) \<noteq> []" using assms by (metis length_0_conv)
  then obtain keep dupes where "sort (map (\<lambda>i. files ! i) g) = keep # dupes"
    by (cases "sort (map (\<lambda>i. files ! i) g)") auto
  then show ?thesis by (simp add: resolve_group_def)
qed

lemma resolve_group_keep:
  assumes "g \<noteq> []"
  shows "\<exists>keep dupes. resolve_group files g = Inr (keep, dupes) \<and>
           (\<forall>i \<in> set g. keep \<le> files ! i) \<and> sorted dupes \<and>
           mset (keep # dupes) = mset (map (\<lambda>i. files ! i) g)"
proof -
  from resolve_group_sorted [OF assms, of files] obtain keep dupes where r:
    "resolve_group files g = Inr (keep, dupes)" "keep # dupes = sort (map (\<lambda>i. files ! i) g)"
    by blast
  have s: "sorted (keep # dupes)" unfolding r(2) by simp
  have m: "mset (keep # dupes) = mset (map (\<lambda>i. files ! i) g)" unfolding r(2) by simp
  have "set (keep # dupes) = (\<lambda>i. files ! i) ` set g" unfolding r(2) by simp
  then have "\<forall>i \<in> set g. files ! i \<in> set (keep # dupes)" by blast
  then have "\<forall>i \<in> set g. keep \<le> files ! i" using s by auto
  then show ?thesis using r(1) s m by auto
qed

text \<open>
  Claim C2. For one list of items and thresholds \<open>T \<le> T'\<close>, both runs of the grouper
  return, and every group found at \<open>T\<close> is contained in a group found at \<open>T'\<close>.
\<close>

theorem groups_threshold_monotonic:
  assumes "length hashes = length files" "T \<le> T'"
  shows "\<exists>gs cs gs' cs'. find_groups T files hashes = Some (Inr (gs, cs)) \<and>
           find_groups T' files hashes = Some (Inr (gs', cs')) \<and>
           (\<forall>g \<in> set gs. \<exists>g' \<in> set gs'. set g \<subseteq> set g')"
proof -
  from find_groups_char [OF assms(1), of T] obtain gs where gs:
    "find_groups T files hashes
       = Some (Inr (gs, all_pairs hashes (length files) [0 ..< length files]))"
    "set gs = {component T hashes i | i. valid hashes i \<and> 1 < length (component T hashes i)}"
    by blast
  from find_groups_char [OF assms(1), of T'] obtain gs' where gs':
    "find_groups T' files hashes
       = Some (Inr (gs', all_pairs hashes (length files) [0 ..< length files]))"
    "set gs' = {component T' hashes i | i. valid hashes i \<and> 1 < length (component T' hashes i)}"
    by blast
  have "\<exists>g' \<in> set gs'. set g \<subseteq> set g'" if "g \<in> set gs" for g
  proof -
    from that gs(2) obtain i where i: "g = component T hashes i" "valid hashes i"
      "1 < length (component T hashes i)" by blast
    have "1 < length (component T' hashes i)"
      using i(3) component_mono(2) [OF assms(2), of hashes i] by simp
    then have "component T' hashes i \<in> set gs'" using gs'(2) i(2) by blast
    moreover have "set g \<subseteq> set (component T' hashes i)"
      unfolding i(1) by (rule component_mono(1) [OF assms(2)])
    ultimately show ?thesis by blast
  qed
  then show ?thesis using gs(1) gs'(1) by blast
qed

theorem groups_threshold_monotonic_witness:
  "find_groups 0 [''a'', ''b'', ''c''] [0, 0, 1] = Some (Inr ([[0, 1]], [(0, 1), (0, 2), (1, 2)])) \<and>
   find_groups 5 [''a'', ''b'', ''c''] [0, 0, 1] = Some (Inr ([[0, 1, 2]], [(0, 1), (0, 2), (1, 2)])) \<and>
   (\<exists>gs cs gs' cs'. find_groups 0 [''a'', ''b'', ''c''] [0, 0, 1] = Some (Inr (gs, cs)) \<and>
      find_groups 5 [''a'', ''b'', ''c''] [0, 0, 1] = Some (Inr (gs', cs')) \<and>
      (\<forall>g \<in> set gs. \<exists>g' \<in> set gs'. set g \<subseteq> set g'))"
proof -
  have l: "length [0, 0, 1 :: int] = length [''a'', ''b'', ''c'']" by simp
  have t: "(0 :: int) \<le> 5" by simp
  have e0: "find_groups 0 [''a'', ''b'', ''c''] [0, 0, 1]
      = Some (Inr ([[0, 1]], [(0, 1), (0, 2), (1, 2)]))"
    by code_simp
  have e5: "find_groups 5 [''a'', ''b'', ''c''] [0, 0, 1]
      = Some (Inr ([[0, 1, 2]], [(0, 1), (0, 2), (1, 2)]))"
    by code_simp
  show ?thesis using e0 e5 groups_threshold_monotonic [OF l t] by blast
qed

text \<open>
  Claim C3. An item whose entry in \<open>hashes\<close> is the failure marker (a negative number)
  is in no pair on which \<open>hamming\<close> is evaluated and in no group; with distinct
  paths, its path is neither the kept member nor a deletion candidate of any group.
\<close>

theorem failed_items_excluded:
  assumes "length hashes = length files" "distinct files" "k < length files" "hashes ! k < 0"
  shows "\<exists>gs cs. find_groups thr files hashes = Some (Inr (gs, cs)) \<and>
           (\<forall>(i, j) \<in> set cs. i \<noteq> k \<and> j \<noteq> k) \<and>
           (\<forall>g \<in> set gs. k \<notin> set g \<and>
              (\<exists>keep dupes. resolve_group files g = Inr (keep, dupes) \<and>
                 files ! k \<noteq> keep \<and> files ! k \<notin> set dupes))"
proof -
  let ?n = "length files"
  from find_groups_char [OF assms(1), of thr] obtain gs where gs:
    "find_groups thr files hashes = Some (Inr (gs, all_pairs hashes ?n [0 ..< ?n]))"
    "set gs = {component thr hashes i | i. valid hashes i \<and> 1 < length (component thr hashes i)}"
    by blast
  have nv: "\<not> valid hashes k" using assms(4) by (simp add: valid_def)
  have cs: "\<forall>(i, j) \<in> set (all_pairs hashes ?n [0 ..< ?n]). i \<noteq> k \<and> j \<noteq> k"
    unfolding set_all_pairs [OF assms(1)] using nv by auto
  have "k \<notin> set g \<and> (\<exists>keep dupes. resolve_group files g = Inr (keep, dupes) \<and>
      files ! k \<noteq> keep \<and> files ! k \<notin> set dupes)" if "g \<in> set gs" for g
  proof -
    from that gs(2) obtain i where i: "g = component thr hashes i"
      "1 < length (component thr hashes i)" by blast
    have mem: "\<forall>j \<in> set g. valid hashes j" unfolding i(1) by (simp add: component_member)
    then have k: "k \<notin> set g" using nv by blast
    have ne: "g \<noteq> []" using i by auto
    from resolve_group_sorted [OF ne, of files] obtain keep dupes where r:
      "resolve_group files g = Inr (keep, dupes)" "keep # dupes = sort (map (\<lambda>i. files ! i) g)"
      by blast
    have s: "set (keep # dupes) = (\<lambda>i. files ! i) ` set g" unfolding r(2) by simp
    have "files ! k \<notin> (\<lambda>i. files ! i) ` set g"
    proof
      assume "files ! k \<in> (\<lambda>i. files ! i) ` set g"
      then obtain j where j: "j \<in> set g" "files ! k = files ! j" by blast
      then have "j < ?n" using mem assms(1) by (auto simp: valid_def)
      then have "k = j" using j(2) assms(2,3) by (simp add: nth_eq_iff_index_eq)
      then show False using j(1) k by simp
    qed
    then have "files ! k \<noteq> keep \<and> files ! k \<notin> set dupes" using s by auto
    then show ?thesis using k r(1) by blast
  qed
  then show ?thesis using gs(1) cs by blast
qed

theorem failed_items_excluded_witness:
  "find_groups 5 [''a'', ''b'', ''c''] [0, - 1, 1] = Some (Inr ([[0, 2]], [(0, 2)])) \<and>
   resolve_group [''a'', ''b'', ''c''] [0, 2] = Inr (''a'', [''c'']) \<and>
   (\<exists>gs cs. find_groups 5 [''a'', ''b'', ''c''] [0, - 1, 1] = Some (Inr (gs, cs)) \<and>
      (\<forall>(i, j) \<in> set cs. i \<noteq> 1 \<and> j \<noteq> 1) \<and>
      (\<forall>g \<in> set gs. 1 \<notin> set g \<and>
         (\<exists>keep dupes. resolve_group [''a'', ''b'', ''c''] g = Inr (keep, dupes) \<and>
            [''a'', ''b'', ''c''] ! 1 \<noteq> keep \<and> [''a'', ''b'', ''c''] ! 1 \<notin> set dupes)))"
proof -
  have l: "length [0, - 1, 1 :: int] = length [''a'', ''b'', ''c'']" by simp
  have d: "distinct [''a'', ''b'', ''c'']" by simp
  have k: "1 < length [''a'', ''b'', ''c'']" by simp
  have f: "[0, - 1, 1 :: int] ! 1 < 0" by simp
  have e: "find_groups 5 [''a'', ''b'', ''c''] [0, - 1, 1] = Some (Inr ([[0, 2]], [(0, 2)]))"
    by code_simp
  have r: "resolve_group [''a'', ''b'', ''c''] [0, 2] = Inr (''a'', [''c''])"
    by code_simp
  show ?thesis using e r failed_items_excluded [OF l d k f, of 5] by blast
qed

text \<open>
  Claim C4. The groups are exactly the classes with at least two members, each once;
  singletons are dropped. For every group the resolver returns a kept path and deletion
  candidates: the kept path is the least of the member paths in lexicographic order, and
  the kept path together with the candidates are the member paths, each member once.
\<close>

theorem groups_resolved:
  assumes "length hashes = length files"
  shows "\<exists>gs cs. find_groups thr files hashes = Some (Inr (gs, cs)) \<and> distinct gs \<and>
           set gs = {component thr hashes i | i.
                       valid hashes i \<and> 1 < length (component thr hashes i)} \<and>
           (\<forall>g \<in> set gs. 2 \<le> length g \<and>
              (\<exists>keep dupes. resolve_group files g = Inr (keep, dupes) \<and>
                 (\<forall>i \<in> set g. keep \<le> files ! i) \<and>
                 mset (keep # dupes) = mset (map (\<lambda>i. files ! i) g)))"
proof -
  let ?n = "length files"
  from find_groups_char [OF assms(1), of thr] obtain gs where gs:
    "find_groups thr files hashes = Some (Inr (gs, all_pairs hashes ?n [0 ..< ?n]))"
    "distinct gs"
    "set gs = {component thr hashes i | i. valid hashes i \<and> 1 < length (component thr hashes i)}"
    by blast
  have "2 \<le> length g \<and> (\<exists>keep dupes. resolve_group files g = Inr (keep, dupes) \<and>
      (\<forall>i \<in> set g. keep \<le> files ! i) \<and>
      mset (keep # dupes) = mset (map (\<lambda>i. files ! i) g))" if "g \<in> set gs" for g
  proof -
    from that gs(3) have len: "1 < length g" by auto
    then have ne: "g \<noteq> []" by auto
    from resolve_group_keep [OF ne, of files] len show ?thesis by auto
  qed
  then show ?thesis using gs by blast
qed

theorem groups_resolved_witness:
  "find_groups 0 [''b'', ''a'', ''c''] [7, 7, 0] = Some (Inr ([[0, 1]], [(0, 1), (0, 2), (1, 2)])) \<and>
   resolve_group [''b'', ''a'', ''c''] [0, 1] = Inr (''a'', [''b'']) \<and>
   (\<exists>gs cs. find_groups 0 [''b'', ''a'', ''c''] [7, 7, 0] = Some (Inr (gs, cs)) \<and> distinct gs \<and>
      set gs = {component 0 [7, 7, 0] i | i.
                  valid [7, 7, 0] i \<and> 1 < length (component 0 [7, 7, 0] i)} \<and>
      (\<forall>g \<in> set gs. 2 \<le> length g \<and>
         (\<exists>keep dupes. resolve_group [''b'', ''a'', ''c''] g = Inr (keep, dupes) \<and>
            (\<forall>i \<in> set g. keep \<le> [''b'', ''a'', ''c''] ! i) \<and>
            mset (keep # dupes) = mset (map (\<lambda>i. [''b'', ''a'', ''c''] ! i) g))))"
proof -
  have l: "length [7, 7, 0 :: int] = length [''b'', ''a'', ''c'']" by simp
  have e: "find_groups 0 [''b'', ''a'', ''c''] [7, 7, 0]
      = Some (Inr ([[0, 1]], [(0, 1), (0, 2), (1, 2)]))"
    by code_simp
  have r: "resolve_group [''b'', ''a'', ''c''] [0, 1] = Inr (''a'', [''b''])"
    by code_simp
  show ?thesis using e r groups_resolved [OF l, of 0] by blast
qed


lemma hamming_le_0_iff: "hamming a b \<le> 0 \<longleftrightarrow> a = b"
proof -
  have "hamming a b \<le> 0 \<longleftrightarrow> bit_count_nat (nat \<bar>a XOR b\<bar>) = 0"
    by (simp add: hamming_def bit_count_def)
  also have "\<dots> \<longleftrightarrow> a XOR b = 0" by (simp add: bit_count_nat_zero_iff)
  also have "\<dots> \<longleftrightarrow> a = b" by (metis xor.left_neutral xor_self_eq xor.assoc)
  finally show ?thesis .
qed

lemma linked_0_iff:
  assumes "valid hashes i" "valid hashes j"
  shows "linked 0 hashes i j \<longleftrightarrow> hashes ! i = hashes ! j"
proof
  assume "linked 0 hashes i j"
  then have "(i, j) \<in> (similar 0 hashes \<union> (similar 0 hashes)\<inverse>)\<^sup>*" by (simp add: linked_def)
  then show "hashes ! i = hashes ! j"
  proof (induction rule: rtrancl_induct)
    case base
    show ?case by simp
  next
    case (step y z)
    then have "hashes ! y = hashes ! z" by (auto simp: similar_def hamming_le_0_iff)
    then show ?case using step.IH by simp
  qed
next
  assume e: "hashes ! i = hashes ! j"
  consider "i = j" | "i < j" | "j < i" by arith
  then show "linked 0 hashes i j"
  proof cases
    case 1
    then show ?thesis by (simp add: linked_refl)
  next
    case 2
    then have "(i, j) \<in> similar 0 hashes" using assms e by (simp add: similar_def hamming_le_0_iff)
    then show ?thesis unfolding linked_def by blast
  next
    case 3
    then have "(j, i) \<in> similar 0 hashes" using assms e by (simp add: similar_def hamming_le_0_iff)
    then show ?thesis unfolding linked_def by blast
  qed
qed

lemma linked_64:
  assumes "\<forall>i < length hashes. hashes ! i < 2 ^ 64" "valid hashes i" "valid hashes j"
  shows "linked 64 hashes i j"
proof -
  have h: "hamming (hashes ! a) (hashes ! b) \<le> 64" if "valid hashes a" "valid hashes b" for a b
    using hamming_range [of "hashes ! a" "hashes ! b"] that assms(1) by (simp add: valid_def)
  consider "i = j" | "i < j" | "j < i" by arith
  then show ?thesis
  proof cases
    case 1
    then show ?thesis by (simp add: linked_refl)
  next
    case 2
    then have "(i, j) \<in> similar 64 hashes" using assms(2,3) h by (simp add: similar_def)
    then show ?thesis unfolding linked_def by blast
  next
    case 3
    then have "(j, i) \<in> similar 64 hashes" using assms(2,3) h by (simp add: similar_def)
    then show ?thesis unfolding linked_def by blast
  qed
qed

lemma distinct_set_singleton:
  assumes "distinct xs" "set xs = {v}"
  shows "xs = [v]"
proof -
  have "card (set xs) = 1" using assms(2) by simp
  then have "length xs = 1" using assms(1) by (simp add: distinct_card)
  then obtain x where "xs = [x]" by (cases xs) auto
  then show ?thesis using assms(2) by simp
qed

text \<open>
  Claim C8. Let the fingerprints of the valid items be below \<open>2 ^ 64\<close>, as the ones the
  hash produces are. At threshold 64, if at least two items are valid, the grouper
  returns exactly one group, and it holds every valid item. At threshold 0, after the
  comparison loops, \<open>find\<close> gives two valid items the same root if and only if their
  fingerprints are equal.
\<close>

theorem threshold_extremes:
  assumes "length hashes = length files" "\<forall>i < length hashes. hashes ! i < 2 ^ 64"
  shows "(2 \<le> length (valid_items hashes) \<longrightarrow>
            (\<exists>cs. find_groups 64 files hashes = Some (Inr ([valid_items hashes], cs)))) \<and>
         (\<exists>d cs. compare_hashes 0 hashes (length files) = Some (Inr (d, cs)) \<and>
            (\<forall>i j. valid hashes i \<and> valid hashes j \<longrightarrow>
               (\<exists>d1 ri d2 rj. dsu_find d i = Some (Inr (d1, ri)) \<and>
                  dsu_find d1 j = Some (Inr (d2, rj)) \<and>
                  (ri = rj \<longleftrightarrow> hashes ! i = hashes ! j))))"
proof
  let ?n = "length files"
  show "2 \<le> length (valid_items hashes) \<longrightarrow>
      (\<exists>cs. find_groups 64 files hashes = Some (Inr ([valid_items hashes], cs)))"
  proof
    assume two: "2 \<le> length (valid_items hashes)"
    from find_groups_char [OF assms(1), of 64] obtain gs where gs:
      "find_groups 64 files hashes = Some (Inr (gs, all_pairs hashes ?n [0 ..< ?n]))"
      "distinct gs"
      "set gs = {component 64 hashes i | i. valid hashes i \<and> 1 < length (component 64 hashes i)}"
      by blast
    have c: "component 64 hashes i = valid_items hashes" if "valid hashes i" for i
    proof -
      have "(valid hashes j \<and> linked 64 hashes i j) \<longleftrightarrow> 0 \<le> hashes ! j"
        if "j \<in> set [0 ..< length hashes]" for j
        using linked_64 [OF assms(2) \<open>valid hashes i\<close>, of j] that by (auto simp: valid_def)
      then show ?thesis unfolding component_def valid_items_def by (intro filter_cong) auto
    qed
    have "valid_items hashes \<noteq> []" using two by auto
    then obtain i where "i \<in> set (valid_items hashes)" by (cases "valid_items hashes") auto
    then have i: "valid hashes i" by (simp add: valid_items_def valid_def)
    have "set gs = {valid_items hashes}"
    proof
      show "set gs \<subseteq> {valid_items hashes}" unfolding gs(3) using c by auto
      have "1 < length (component 64 hashes i)" using c [OF i] two by simp
      then have "component 64 hashes i \<in> set gs" unfolding gs(3) using i by blast
      then show "{valid_items hashes} \<subseteq> set gs" using c [OF i] by simp
    qed
    then have "gs = [valid_items hashes]" using gs(2) by (intro distinct_set_singleton)
    then show "\<exists>cs. find_groups 64 files hashes = Some (Inr ([valid_items hashes], cs))"
      using gs(1) by blast
  qed
next
  let ?n = "length files"
  from compare_hashes_correct [OF assms(1), of 0] obtain d where d:
    "compare_hashes 0 hashes ?n = Some (Inr (d, all_pairs hashes ?n [0 ..< ?n]))"
    "dsu_inv d" "length (self_p d) = ?n"
    "\<forall>x < ?n. \<forall>y < ?n. same_set (self_p d) x y \<longleftrightarrow> linked 0 hashes x y"
    by blast
  have "\<exists>d1 ri d2 rj. dsu_find d i = Some (Inr (d1, ri)) \<and> dsu_find d1 j = Some (Inr (d2, rj)) \<and>
      (ri = rj \<longleftrightarrow> hashes ! i = hashes ! j)" if v: "valid hashes i \<and> valid hashes j" for i j
  proof -
    have ij: "i < ?n" "j < ?n" using v assms(1) by (auto simp: valid_def)
    then have ij': "i < length (self_p d)" "j < length (self_p d)" using d(3) by simp_all
    from dsu_find_twice [OF d(2) ij'] obtain d1 ri d2 rj where f:
      "dsu_find d i = Some (Inr (d1, ri))" "dsu_find d1 j = Some (Inr (d2, rj))"
      "ri = rj \<longleftrightarrow> same_set (self_p d) i j"
      by blast
    have "ri = rj \<longleftrightarrow> hashes ! i = hashes ! j"
      using f(3) d(4) ij linked_0_iff v by simp
    then show ?thesis using f(1,2) by blast
  qed
  then show "\<exists>d cs. compare_hashes 0 hashes ?n = Some (Inr (d, cs)) \<and>
      (\<forall>i j. valid hashes i \<and> valid hashes j \<longrightarrow>
         (\<exists>d1 ri d2 rj. dsu_find d i = Some (Inr (d1, ri)) \<and>
            dsu_find d1 j = Some (Inr (d2, rj)) \<and>
            (ri = rj \<longleftrightarrow> hashes ! i = hashes ! j)))"
    using d(1) by blast
qed


theorem threshold_extremes_witness:
  "find_groups 64 [''a'', ''b'', ''c'', ''d''] [0, 255, - 1, 5]
     = Some (Inr ([[0, 1, 3]], [(0, 1), (0, 3), (1, 3)])) \<and>
   valid_items [0, 255, - 1, 5] = [0, 1, 3] \<and>
   find_groups 0 [''a'', ''b'', ''c'', ''d''] [0, 255, - 1, 5]
     = Some (Inr ([], [(0, 1), (0, 3), (1, 3)])) \<and>
   (\<exists>cs. find_groups 64 [''a'', ''b'', ''c'', ''d''] [0, 255, - 1, 5]
      = Some (Inr ([valid_items [0, 255, - 1, 5]], cs))) \<and>
   (\<exists>d cs. compare_hashes 0 [0, 255, - 1, 5] (length [''a'', ''b'', ''c'', ''d'']) = Some (Inr (d, cs)) \<and>
      (\<exists>d1 ri d2 rj. dsu_find d 0 = Some (Inr (d1, ri)) \<and> dsu_find d1 3 = Some (Inr (d2, rj)) \<and>
         (ri = rj \<longleftrightarrow> [0, 255, - 1, 5 :: int] ! 0 = [0, 255, - 1, 5] ! 3)))"
proof -
  have l: "length [0, 255, - 1, 5 :: int] = length [''a'', ''b'', ''c'', ''d'']"
    by simp
  have b: "\<forall>i < length [0, 255, - 1, 5 :: int]. [0, 255, - 1, 5 :: int] ! i < 2 ^ 64"
    by (simp add: All_less_Suc)
  have v: "valid_items [0, 255, - 1, 5] = [0, 1, 3]" by code_simp
  have e: "find_groups 64 [''a'', ''b'', ''c'', ''d''] [0, 255, - 1, 5]
      = Some (Inr ([[0, 1, 3]], [(0, 1), (0, 3), (1, 3)]))"
    by code_simp
  have z: "find_groups 0 [''a'', ''b'', ''c'', ''d''] [0, 255, - 1, 5]
      = Some (Inr ([], [(0, 1), (0, 3), (1, 3)]))"
    by code_simp
  have two: "2 \<le> length (valid_items [0, 255, - 1, 5])"
    unfolding v by simp
  from threshold_extremes [OF l b] two
  have "\<exists>cs. find_groups 64 [''a'', ''b'', ''c'', ''d''] [0, 255, - 1, 5]
      = Some (Inr ([valid_items [0, 255, - 1, 5]], cs))"
    by blast
  moreover have "valid [0, 255, - 1, 5] 0 \<and> valid [0, 255, - 1, 5] 3"
    by (simp add: valid_def)
  with threshold_extremes [OF l b]
  have "\<exists>d cs. compare_hashes 0 [0, 255, - 1, 5] (length [''a'', ''b'', ''c'', ''d'']) = Some (Inr (d, cs)) \<and>
      (\<exists>d1 ri d2 rj. dsu_find d 0 = Some (Inr (d1, ri)) \<and> dsu_find d1 3 = Some (Inr (d2, rj)) \<and>
         (ri = rj \<longleftrightarrow> [0, 255, - 1, 5 :: int] ! 0 = [0, 255, - 1, 5] ! 3))"
    by blast
  ultimately show ?thesis using v e z by blast
qed


section \<open>Claims about the fingerprint and the hashing loop\<close>

lemma ahash_bits_foldl:
  "ahash_bits pixels = foldl (pack_step (real_of_int (sum_list pixels) / 64)) 0 pixels"
  unfolding ahash_bits_def Let_def pack_step_def ..

lemma bit_pack_step:
  "bit (pack_step avg bits v) k \<longleftrightarrow> (if k = 0 then real_of_int v > avg else bit bits (k - 1))"
proof -
  let ?c = "if real_of_int v > avg then 1 else 0 :: int"
  have 1: "bit (push_bit 1 bits OR ?c) k \<longleftrightarrow> bit (push_bit 1 bits) k \<or> bit ?c k"
    by (rule bit_or_iff)
  have 2: "bit (push_bit 1 bits) k \<longleftrightarrow> 1 \<le> k \<and> bit bits (k - 1)"
    by (rule bit_push_bit_iff_int)
  have 3: "bit ?c k \<longleftrightarrow> k = 0 \<and> real_of_int v > avg"
    by (simp add: bit_1_iff)
  show ?thesis unfolding pack_step_def 1 2 3 by (cases k) auto
qed

lemma bit_foldl_pack_step:
  "bit (foldl (pack_step avg) acc xs) k \<longleftrightarrow>
     (if k < length xs then real_of_int (xs ! (length xs - 1 - k)) > avg
      else bit acc (k - length xs))"
proof (induction xs arbitrary: k rule: rev_induct)
  case Nil
  show ?case by simp
next
  case (snoc x xs)
  show ?case
  proof (cases k)
    case 0
    then show ?thesis by (simp add: bit_pack_step)
  next
    case (Suc m)
    have "bit (foldl (pack_step avg) acc (xs @ [x])) k \<longleftrightarrow> bit (foldl (pack_step avg) acc xs) m"
      using Suc by (simp add: bit_pack_step)
    also have "\<dots> \<longleftrightarrow> (if m < length xs then real_of_int (xs ! (length xs - 1 - m)) > avg
        else bit acc (m - length xs))"
      by (rule snoc.IH)
    also have "\<dots> \<longleftrightarrow> (if k < length (xs @ [x])
        then real_of_int ((xs @ [x]) ! (length (xs @ [x]) - 1 - k)) > avg
        else bit acc (k - length (xs @ [x])))"
      using Suc by (auto simp: nth_append)
    finally show ?thesis .
  qed
qed

lemma ahash_bits_bit_rev:
  assumes "k < length pixels"
  shows "bit (ahash_bits pixels) k \<longleftrightarrow>
           real_of_int (pixels ! (length pixels - 1 - k)) > real_of_int (sum_list pixels) / 64"
  unfolding ahash_bits_foldl bit_foldl_pack_step using assms by simp

lemma pack_step_range:
  assumes "0 \<le> bits" "bits < 2 ^ m"
  shows "0 \<le> pack_step avg bits v \<and> pack_step avg bits v < 2 ^ Suc m"
proof -
  have p: "0 \<le> push_bit 1 bits" "push_bit 1 bits < 2 ^ Suc m"
    using assms by (simp_all add: push_bit_eq_mult)
  have b: "(0::int) \<le> (if real_of_int v > avg then 1 else 0)"
    "(if real_of_int v > avg then 1 else 0) < (2::int) ^ Suc m"
    by (auto intro: less_le_trans [of 1 2])
  have "pack_step avg bits v < 2 ^ Suc m"
    unfolding pack_step_def using p(1) p(2) b(2) by (rule OR_upper)
  moreover have "0 \<le> pack_step avg bits v" unfolding pack_step_def using p(1) b(1) by simp
  ultimately show ?thesis by simp
qed

lemma foldl_pack_step_range:
  assumes "0 \<le> acc" "acc < 2 ^ m"
  shows "0 \<le> foldl (pack_step avg) acc xs \<and> foldl (pack_step avg) acc xs < 2 ^ (m + length xs)"
  using assms
proof (induction xs arbitrary: acc m)
  case Nil
  then show ?case by simp
next
  case (Cons x xs)
  from pack_step_range [OF Cons.prems, of avg x]
  have "0 \<le> pack_step avg acc x" "pack_step avg acc x < 2 ^ Suc m" by simp_all
  from Cons.IH [OF this] show ?case by simp
qed

lemma ahash_bits_range:
  assumes "length pixels \<le> 64"
  shows "0 \<le> ahash_bits pixels \<and> ahash_bits pixels < 2 ^ 64"
proof -
  let ?f = "foldl (pack_step (real_of_int (sum_list pixels) / 64)) 0 pixels"
  have r: "0 \<le> ?f \<and> ?f < 2 ^ (0 + length pixels)"
    by (rule foldl_pack_step_range) simp_all
  have "(2::int) ^ length pixels \<le> 2 ^ 64" using assms by (intro power_increasing) simp_all
  then show ?thesis unfolding ahash_bits_foldl using r by simp
qed

lemma try_cmds_range:
  "try_cmds check_output cmds last_err = Inr h \<Longrightarrow> 0 \<le> h \<and> h < 2 ^ 64"
proof (induction cmds arbitrary: last_err)
  case Nil
  then show ?case by simp
next
  case (Cons cmd cmds)
  show ?case
  proof (cases "check_output cmd")
    case (Inl e)
    then show ?thesis using Cons by simp
  next
    case (Inr out)
    show ?thesis
    proof (cases "length out < 64")
      case True
      then show ?thesis using Cons Inr by simp
    next
      case False
      then have "h = ahash_bits (take 64 out)" using Cons.prems Inr by simp
      moreover have "length (take 64 out) \<le> 64" by simp
      ultimately show ?thesis using ahash_bits_range by blast
    qed
  qed
qed

lemma ahash_range:
  assumes "\<forall>p px. getdata p = Inr px \<longrightarrow> length px = 64"
    and "ahash have_pillow getdata check_output path = Inr h"
  shows "0 \<le> h \<and> h < 2 ^ 64"
proof (cases have_pillow)
  case True
  then obtain px where px: "getdata path = Inr px" "h = ahash_bits px"
    using assms(2) by (auto simp: ahash_def ahash_pillow_def split: sum.splits)
  then have "length px \<le> 64" using assms(1) by fastforce
  then show ?thesis using px(2) ahash_bits_range by blast
next
  case False
  then have "try_cmds check_output (cmd_variants path) None = Inr h"
    using assms(2) by (simp add: ahash_def ahash_imagemagick_def)
  then show ?thesis by (rule try_cmds_range)
qed

lemma hash_loop_eq:
  "hash_loop ah ps (hs, fs, cs)
     = (hs @ map (hash_entry ah) ps, fs @ failure_entries ah ps, cs @ ps)"
proof (induction ps arbitrary: hs fs cs)
  case Nil
  show ?case by (simp add: failure_entries_def)
next
  case (Cons p ps)
  show ?case
    by (cases "ah p") (simp_all add: Cons.IH hash_entry_def failure_entries_def)
qed

lemma failure_entries_paths:
  "p \<in> fst ` set (failure_entries ah ps) \<longleftrightarrow> p \<in> set ps \<and> (\<exists>e. ah p = Inl e)"
proof (induction ps)
  case Nil
  show ?case by (simp add: failure_entries_def)
next
  case (Cons q ps)
  have IH: "p \<in> fst ` set (failure_entries ah ps) \<longleftrightarrow> p \<in> set ps \<and> (\<exists>e. ah p = Inl e)"
    by (rule Cons.IH)
  show ?case
  proof (cases "ah q")
    case (Inl e)
    then have "failure_entries ah (q # ps) = (q, e) # failure_entries ah ps"
      by (simp add: failure_entries_def)
    then show ?thesis using IH Inl by auto
  next
    case (Inr h)
    then have "failure_entries ah (q # ps) = failure_entries ah ps"
      by (simp add: failure_entries_def)
    then show ?thesis using IH Inr by auto
  qed
qed

text \<open>
  Claim C6, as amended. The loop shifts the earlier pixels up, so the first pixel ends in
  the most significant of the 64 bits: for a list of 64 pixels, the bit of weight
  \<open>2 ^ (63 - k)\<close> of the fingerprint is set if and only if pixel \<open>k\<close> (row-major) is
  strictly brighter than the mean of the 64 pixels.
\<close>

theorem ahash_bits_bit:
  assumes "length pixels = 64" "k < 64"
  shows "bit (ahash_bits pixels) (63 - k) \<longleftrightarrow>
           real_of_int (pixels ! k) > real_of_int (sum_list pixels) / 64"
proof -
  have "63 - k < length pixels" using assms by simp
  from ahash_bits_bit_rev [OF this] show ?thesis using assms by simp
qed

theorem ahash_bits_bit_witness:
  "bit (ahash_bits (255 # replicate 63 0)) (63 - 0) \<longleftrightarrow>
     real_of_int ((255 # replicate 63 0) ! 0) > real_of_int (sum_list (255 # replicate 63 0)) / 64"
proof -
  have l: "length (255 # replicate 63 (0 :: int)) = 64" by simp
  have k: "(0 :: nat) < 64" by simp
  show ?thesis using ahash_bits_bit [OF l k] .
qed

text \<open>
  The claim as it was stated, with bit \<open>k\<close> for pixel \<open>k\<close>, fails: when only the first
  pixel is bright, bit 0 of the fingerprint is clear.
\<close>

theorem ahash_bits_bit_k_counterexample:
  "\<not> (bit (ahash_bits (255 # replicate 63 0)) 0 \<longleftrightarrow>
        real_of_int ((255 # replicate 63 0) ! 0) > real_of_int (sum_list (255 # replicate 63 0)) / 64)"
proof -
  have "(0 :: nat) < length (255 # replicate 63 (0 :: int))" by simp
  from ahash_bits_bit_rev [OF this]
  have "bit (ahash_bits (255 # replicate 63 0)) 0 \<longleftrightarrow>
      real_of_int ((255 # replicate 63 0) ! 63) > real_of_int (sum_list (255 # replicate 63 0)) / 64"
    by simp
  moreover have "(255 # replicate 63 (0 :: int)) ! 63 = 0" by (simp add: nth_Cons')
  moreover have "sum_list (255 # replicate 63 (0 :: int)) = 255" by (simp add: sum_list_replicate)
  ultimately show ?thesis by simp
qed

text \<open>
  Claim C10. Let the imaging library give 64 pixels for every image it reads (it resizes
  to 8 by 8). After the hashing loop, \<open>hashes\<close> has one entry per file, in the order of
  the files; the entry is \<open>-1\<close> exactly for the files in \<open>failures\<close>; every other entry is
  the fingerprint the hash returned for the file. Whatever the hash returns is at least 0
  and below \<open>2 ^ 64\<close>, so it is never the marker \<open>-1\<close>.
\<close>

theorem hash_loop_entries:
  assumes "\<forall>p px. getdata p = Inr px \<longrightarrow> length px = 64"
    and "hash_loop (ahash have_pillow getdata check_output) files ([], [], [])
           = (hashes, failures, hashed)"
  shows "length hashes = length files \<and>
         (\<forall>i < length files.
            (hashes ! i = - 1 \<longleftrightarrow> files ! i \<in> fst ` set failures) \<and>
            (hashes ! i \<noteq> - 1 \<longrightarrow>
               ahash have_pillow getdata check_output (files ! i) = Inr (hashes ! i))) \<and>
         (\<forall>p h. ahash have_pillow getdata check_output p = Inr h \<longrightarrow> 0 \<le> h \<and> h < 2 ^ 64)"
proof -
  let ?ah = "ahash have_pillow getdata check_output"
  have rng: "0 \<le> h \<and> h < 2 ^ 64" if "?ah p = Inr h" for p h
    using ahash_range [OF assms(1) that] .
  have hs: "hashes = map (hash_entry ?ah) files" and fs: "failures = failure_entries ?ah files"
    using assms(2) unfolding hash_loop_eq by auto
  have entry: "(hashes ! i = - 1 \<longleftrightarrow> files ! i \<in> fst ` set failures) \<and>
      (hashes ! i \<noteq> - 1 \<longrightarrow> ?ah (files ! i) = Inr (hashes ! i))" if i: "i < length files" for i
  proof (cases "?ah (files ! i)")
    case (Inl e)
    then have "hashes ! i = - 1" using i hs by (simp add: hash_entry_def)
    moreover have "files ! i \<in> fst ` set failures"
      unfolding fs failure_entries_paths using i Inl by simp
    ultimately show ?thesis by simp
  next
    case (Inr h)
    then have h: "hashes ! i = h" using i hs by (simp add: hash_entry_def)
    have "0 \<le> h" using rng [OF Inr] by simp
    then have "hashes ! i \<noteq> - 1" using h by simp
    moreover have "files ! i \<notin> fst ` set failures"
      unfolding fs failure_entries_paths using Inr by simp
    ultimately show ?thesis using Inr h by simp
  qed
  show ?thesis using hs entry rng by simp
qed

theorem hash_loop_entries_witness:
  "hash_loop (ahash True (\<lambda>p. if p = ''a'' then Inr (255 # replicate 63 0) else Inl ''bad'')
       (\<lambda>c. Inl ''none'')) [''a'', ''b''] ([], [], [])
     = ([9223372036854775808, - 1], [(''b'', ''bad'')], [''a'', ''b'']) \<and>
   length [9223372036854775808, - 1 :: int] = length [''a'', ''b''] \<and>
   ([9223372036854775808, - 1 :: int] ! 1 = - 1
      \<longleftrightarrow> [''a'', ''b''] ! 1 \<in> fst ` set [(''b'', ''bad'')]) \<and>
   ([9223372036854775808, - 1 :: int] ! 0 = - 1
      \<longleftrightarrow> [''a'', ''b''] ! 0 \<in> fst ` set [(''b'', ''bad'')]) \<and>
   ahash True (\<lambda>p. if p = ''a'' then Inr (255 # replicate 63 0) else Inl ''bad'')
       (\<lambda>c. Inl ''none'') ([''a'', ''b''] ! 0) = Inr ([9223372036854775808, - 1] ! 0)"
proof -
  let ?g = "\<lambda>p. if p = ''a'' then Inr (255 # replicate 63 (0 :: int)) else Inl ''bad''"
  let ?c = "\<lambda>c :: string list. (Inl ''none'' :: string + int list)"
  have lib: "\<forall>p px. ?g p = Inr px \<longrightarrow> length px = 64" by simp
  have b: "ahash_bits (255 # replicate 63 0) = 9223372036854775808"
    by code_simp
  have e: "hash_loop (ahash True ?g ?c) [''a'', ''b''] ([], [], [])
      = ([9223372036854775808, - 1], [(''b'', ''bad'')], [''a'', ''b''])"
    by (simp add: ahash_def ahash_pillow_def b)
  note t = hash_loop_entries [OF lib e]
  have 0: "(0 :: nat) < length [''a'', ''b'']" and 1: "(1 :: nat) < length [''a'', ''b'']"
    by simp_all
  have n: "[9223372036854775808, - 1 :: int] ! 0 \<noteq> - 1" by simp
  from t have len: "length [9223372036854775808, - 1 :: int] = length [''a'', ''b'']" by blast
  from t 1 have i1: "[9223372036854775808, - 1 :: int] ! 1 = - 1
      \<longleftrightarrow> [''a'', ''b''] ! 1 \<in> fst ` set [(''b'', ''bad'')]" by blast
  from t 0 have i0: "[9223372036854775808, - 1 :: int] ! 0 = - 1
      \<longleftrightarrow> [''a'', ''b''] ! 0 \<in> fst ` set [(''b'', ''bad'')]" by blast
  from t 0 n have a0: "ahash True ?g ?c ([''a'', ''b''] ! 0) = Inr ([9223372036854775808, - 1] ! 0)"
    by blast
  show ?thesis using e len i1 i0 a0 by blast
qed


section \<open>Claims about the configuration and the run\<close>







end
